theory Spec2Isabelle
  imports Complex_Main "HOL-Library.Multiset"
begin

section \<open>TenSQR: nucleotide statistics\<close>

text \<open>
  The Python exceptions the script can raise, as values. \<open>ValueError\<close> carries the
  message of the \<^verbatim>\<open>raise\<close>.
\<close>

datatype error = ValueError string | IndexError string | NameError string

text \<open>
  A numpy array of integers: its shape and its items in row-major (C) order. A
  well-formed array has as many items as the product of its shape.
\<close>

datatype ndarray = NDArray (shape: "nat list") (items: "int list")

definition ndim :: "ndarray \<Rightarrow> nat" where
  "ndim a = length (shape a)"

definition wf_ndarray :: "ndarray \<Rightarrow> bool" where
  "wf_ndarray a = (length (items a) = prod_list (shape a))"

text \<open>\<^verbatim>\<open>a[i, j]\<close> of a 2-D array.\<close>

definition at2 :: "ndarray \<Rightarrow> nat \<Rightarrow> nat \<Rightarrow> int" where
  "at2 a i j = items a ! (i * (shape a ! 1) + j)"

text \<open>\<^verbatim>\<open>(M_E == v).sum(axis=0)\<close>: for each column, the number of rows holding \<open>v\<close>.\<close>

definition eq_sum_axis0 :: "ndarray \<Rightarrow> int \<Rightarrow> int list" where
  "eq_sum_axis0 a v =
     map (\<lambda>j. int (length (filter (\<lambda>i. at2 a i j = v) [0..<shape a ! 0]))) [0..<shape a ! 1]"

text \<open>\<^verbatim>\<open>out[:, i] = col\<close>: overwrite column \<open>i\<close> of a matrix held as a list of rows.\<close>

definition set_col :: "int list list \<Rightarrow> nat \<Rightarrow> int list \<Rightarrow> int list list" where
  "set_col out i col = map (\<lambda>(row, v). row[i := v]) (zip out col)"

text \<open>
  \<^verbatim>\<open>
  def ACGT_count(M_E):
      if M_E.ndim != 2:
          raise ValueError("arr should be 2D")
      n_snvs = M_E.shape[1]
      out = np.zeros((n_snvs, 4))
      for i in range(4):
          out[:, i] = (M_E == (i + 1)).sum(axis=0)
      return out
  \<close>
  The result is a float array holding counts; it is modelled with integer entries.
\<close>

definition ACGT_count :: "ndarray \<Rightarrow> error + int list list" where
  "ACGT_count M_E =
     (if ndim M_E \<noteq> 2 then Inl (ValueError ''arr should be 2D'')
      else
        let n_snvs = shape M_E ! 1;
            out = replicate n_snvs (replicate 4 0)
        in Inr (foldl (\<lambda>out i. set_col out i (eq_sum_axis0 M_E (int i + 1))) out [0, 1, 2, 3]))"

text \<open>The entries of a 2-D array all lie in \<open>{0..4}\<close> (gap, A, C, G, T).\<close>

definition snv_entries :: "ndarray \<Rightarrow> bool" where
  "snv_entries a = list_all (\<lambda>x. 0 \<le> x \<and> x \<le> 4) (items a)"


section \<open>The script's matrices\<close>

text \<open>
  Inside the script every array is 2-dimensional; a matrix is held as the list of its
  rows, integer matrices (\<^verbatim>\<open>SNVmatrix\<close>, \<^verbatim>\<open>M_E\<close>, \<^verbatim>\<open>V\<close>) with \<open>int\<close> entries and
  float matrices (\<^verbatim>\<open>TM_E\<close>, \<^verbatim>\<open>Vt\<close>, \<^verbatim>\<open>P_tensor\<close>) with \<open>real\<close> entries.
\<close>

type_synonym imatrix = "int list list"
type_synonym rmatrix = "real list list"

definition wf_matrix :: "nat \<Rightarrow> 'a list list \<Rightarrow> bool" where
  "wf_matrix L M = list_all (\<lambda>row. length row = L) M"

text \<open>A read matrix: \<open>L\<close> columns and entries in \<open>{0..4}\<close>.\<close>

definition snv_matrix :: "nat \<Rightarrow> imatrix \<Rightarrow> bool" where
  "snv_matrix L M = (wf_matrix L M \<and> list_all (list_all (\<lambda>x. 0 \<le> x \<and> x \<le> 4)) M)"

text \<open>A haplotype matrix: \<open>L\<close> columns and entries in \<open>{1..4}\<close>.\<close>

definition hap_matrix :: "nat \<Rightarrow> imatrix \<Rightarrow> bool" where
  "hap_matrix L V = (wf_matrix L V \<and> list_all (list_all (\<lambda>x. 1 \<le> x \<and> x \<le> 4)) V)"

text \<open>The numpy array of a matrix of the script with \<open>L\<close> columns.\<close>

definition arr2 :: "nat \<Rightarrow> imatrix \<Rightarrow> ndarray" where
  "arr2 L rows = NDArray [length rows, L] (concat rows)"

text \<open>
  \<^verbatim>\<open>ACGT_count(M)\<close> called by the script on one of its matrices. The argument is
  2-dimensional by construction, so the call returns.
\<close>

definition counts :: "nat \<Rightarrow> imatrix \<Rightarrow> int list list" where
  "counts L rows = (case ACGT_count (arr2 L rows) of Inr out \<Rightarrow> out | Inl e \<Rightarrow> [])"

text \<open>
  Python's \<^verbatim>\<open>max\<close>, and \<^verbatim>\<open>np.argmax\<close> / \<^verbatim>\<open>np.argmin\<close> of a non-empty vector: the
  index of the first occurrence of the extreme value.
\<close>

definition max_list :: "'a::linorder list \<Rightarrow> 'a" where
  "max_list xs = fold max (tl xs) (hd xs)"

definition min_list :: "'a::linorder list \<Rightarrow> 'a" where
  "min_list xs = fold min (tl xs) (hd xs)"

definition argmax :: "'a::linorder list \<Rightarrow> nat" where
  "argmax xs = length (takeWhile (\<lambda>x. x \<noteq> max_list xs) xs)"

definition argmin :: "'a::linorder list \<Rightarrow> nat" where
  "argmin xs = length (takeWhile (\<lambda>x. x \<noteq> min_list xs) xs)"

section \<open>Tensor encoding and decoding\<close>

text \<open>\<^verbatim>\<open>np.double(M_E == v)\<close>.\<close>

definition eq_double :: "imatrix \<Rightarrow> int \<Rightarrow> rmatrix" where
  "eq_double M v = map (map (\<lambda>x. if x = v then 1 else 0)) M"

text \<open>\<^verbatim>\<open>np.concatenate(blocks, axis=1)\<close>: the rows of the blocks, side by side.\<close>

definition concatenate_axis1 :: "'a list list list \<Rightarrow> 'a list list" where
  "concatenate_axis1 blocks = map (\<lambda>i. concat (map (\<lambda>b. b ! i) blocks)) [0..<length (hd blocks)]"

text \<open>
  \<^verbatim>\<open>
  TM_E = np.concatenate((np.double(M_E == 1), np.double(M_E == 2),
                         np.double(M_E == 3), np.double(M_E == 4)), axis=1)
  \<close>
\<close>

definition tensor_encode :: "imatrix \<Rightarrow> rmatrix" where
  "tensor_encode M = concatenate_axis1 [eq_double M 1, eq_double M 2, eq_double M 3, eq_double M 4]"

text \<open>
  \<^verbatim>\<open>A.reshape(R, L, G, order="F")\<close> of a matrix \<open>A\<close> with \<open>R\<close> rows: both arrays are read
  with the first index changing fastest, so the item at \<open>(r, l, g)\<close>, whose position in
  that order is \<open>k = r + R * l + R * L * g\<close>, is the item of \<open>A\<close> at row \<open>k mod R\<close> and
  column \<open>k div R\<close>.
\<close>

definition reshape_F :: "nat \<Rightarrow> nat \<Rightarrow> nat \<Rightarrow> 'a list list \<Rightarrow> 'a list list list" where
  "reshape_F R L G A =
     map (\<lambda>r. map (\<lambda>l. map (\<lambda>g. let k = r + R * l + R * L * g in A ! (k mod R) ! (k div R))
       [0..<G]) [0..<L]) [0..<R]"

text \<open>\<^verbatim>\<open>V = np.argmax(Vt.reshape(R, hap_len, 4, order="F"), axis=2) + 1\<close>\<close>

definition tensor_decode :: "nat \<Rightarrow> nat \<Rightarrow> rmatrix \<Rightarrow> imatrix" where
  "tensor_decode R hap_len Vt = map (map (\<lambda>xs. int (argmax xs) + 1)) (reshape_F R hap_len 4 Vt)"


section \<open>Majority votes\<close>

text \<open>\<^verbatim>\<open>M[idx == i, :]\<close>: the rows of \<open>M\<close> whose entry in \<open>idx\<close> is \<open>i\<close>.\<close>

definition select_rows :: "'a list \<Rightarrow> nat list \<Rightarrow> nat \<Rightarrow> 'a list" where
  "select_rows M idx i = map fst (filter (\<lambda>(row, a). a = i) (zip M idx))"

text \<open>
  \<^verbatim>\<open>
  single_sta = np.zeros((hap_len, 4))
  if len(reads_single) != 0:
      single_sta = ACGT_count(reads_single)
  \<close>
\<close>

definition single_sta_of :: "nat \<Rightarrow> imatrix \<Rightarrow> int list list" where
  "single_sta_of hap_len reads_single =
     (if length reads_single \<noteq> 0 then counts hap_len reads_single
      else replicate hap_len (replicate 4 0))"

text \<open>\<^verbatim>\<open>uncov_pos = np.where(np.sum(single_sta, axis=1) == 0)[0]\<close>\<close>

definition uncov_pos_of :: "int list list \<Rightarrow> nat list" where
  "uncov_pos_of single_sta = filter (\<lambda>j. sum_list (single_sta ! j) = 0) [0..<length single_sta]"

text \<open>\<^verbatim>\<open>np.where(c == max(c))[0]\<close>\<close>

definition where_max :: "int list \<Rightarrow> nat list" where
  "where_max c = filter (\<lambda>k. c ! k = max_list c) [0..<length c]"

text \<open>
  The random source is a state \<open>'g\<close> with the function \<open>rnd\<close> of \<^verbatim>\<open>random.random()\<close>:
  it returns a float in \<open>[0, 1)\<close> and the next state.

  The body of the loop over the uncovered positions of one haplotype:
  \<^verbatim>\<open>
  if len(np.where(ACGTcount[p, :] == max(ACGTcount[p, :]))[0]) != 1:
      tem = np.where(ACGTcount[p, :] == max(ACGTcount[p, :]))[0]
      V_major[i, p] = tem[int(np.floor(random.random() * len(tem)))] + 1
  else:
      V_major[i, p] = np.argmax(ACGTcount[p, :]) + 1
  \<close>
\<close>

definition fill_uncov ::
  "('g \<Rightarrow> real \<times> 'g) \<Rightarrow> int list list \<Rightarrow> int list \<times> 'g \<Rightarrow> nat \<Rightarrow> int list \<times> 'g" where
  "fill_uncov rnd ACGTcount vg p =
     (if length (where_max (ACGTcount ! p)) \<noteq> 1 then
        let tem = where_max (ACGTcount ! p);
            u = fst (rnd (snd vg))
        in ((fst vg)[p := int (tem ! nat \<lfloor>u * real (length tem)\<rfloor>) + 1], snd (rnd (snd vg)))
      else ((fst vg)[p := int (argmax (ACGTcount ! p)) + 1], snd vg))"

text \<open>
  One haplotype of a majority vote (the body of \<^verbatim>\<open>for i in range(R)\<close>), from the
  reads assigned to it: the first-occurrence argmax of each position, then the fallback
  on the uncovered positions.
\<close>

definition vote_row ::
  "('g \<Rightarrow> real \<times> 'g) \<Rightarrow> int list list \<Rightarrow> nat \<Rightarrow> imatrix \<Rightarrow> 'g \<Rightarrow> int list \<times> 'g" where
  "vote_row rnd ACGTcount hap_len reads_single g =
     (let single_sta = single_sta_of hap_len reads_single;
          v = map (\<lambda>st. int (argmax st) + 1) single_sta;
          uncov_pos = uncov_pos_of single_sta
      in foldl (fill_uncov rnd ACGTcount) (v, g) uncov_pos)"

text \<open>
  The vote over all haplotypes. The script has it twice: as the V-update of the
  alternating minimization (\<^verbatim>\<open>V_major\<close>, from \<^verbatim>\<open>M_E\<close>, \<^verbatim>\<open>min_index\<close> and
  \<^verbatim>\<open>ACGTcount\<close>), and as the second vote (\<^verbatim>\<open>reconV2\<close>, from \<^verbatim>\<open>SNVmatrix\<close>,
  \<^verbatim>\<open>index\<close> and \<^verbatim>\<open>ori_ACGTcount\<close>).
\<close>

definition major_vote ::
  "('g \<Rightarrow> real \<times> 'g) \<Rightarrow> int list list \<Rightarrow> nat \<Rightarrow> imatrix \<Rightarrow> nat list \<Rightarrow> nat \<Rightarrow> 'g \<Rightarrow>
   imatrix \<times> 'g" where
  "major_vote rnd ACGTcount hap_len M idx R g =
     foldl (\<lambda>Vg i. let vg = vote_row rnd ACGTcount hap_len (select_rows M idx i) (snd Vg)
                    in (fst Vg @ [fst vg], snd vg)) ([], g) [0..<R]"

text \<open>
  The vote of the post-processing, where uncovered positions become gaps:
  \<^verbatim>\<open>
  V_deletion[i, :] = np.argmax(single_sta, axis=1) + 1
  uncov_pos = np.where(np.sum(single_sta, axis=1) == 0)[0]
  if len(uncov_pos) != 0:
      V_deletion[i, uncov_pos] = 0
  \<close>
\<close>

definition deletion_row :: "nat \<Rightarrow> imatrix \<Rightarrow> int list" where
  "deletion_row hap_len reads_single =
     (let single_sta = single_sta_of hap_len reads_single;
          v = map (\<lambda>st. int (argmax st) + 1) single_sta;
          uncov_pos = uncov_pos_of single_sta
      in if length uncov_pos \<noteq> 0 then foldl (\<lambda>v p. v[p := 0]) v uncov_pos else v)"

definition deletion_vote :: "nat \<Rightarrow> imatrix \<Rightarrow> nat list \<Rightarrow> nat \<Rightarrow> imatrix" where
  "deletion_vote hap_len M idx m = map (\<lambda>i. deletion_row hap_len (select_rows M idx i)) [0..<m]"

text \<open>Position \<open>j\<close> is covered by a set of reads when one of them has no gap there.\<close>

definition covered :: "imatrix \<Rightarrow> nat \<Rightarrow> bool" where
  "covered reads j = list_ex (\<lambda>r. r ! j \<noteq> 0) reads"


section \<open>Mismatch thresholds and read selection\<close>

text \<open>
  \<^verbatim>\<open>binom.pmf(k, n, p)\<close> of scipy is a parameter \<open>binom_pmf\<close> of the model.

  \<^verbatim>\<open>
  pr = 1
  for k in range(thre):
      pr -= binom.pmf(k, l, seq_err)
  \<close>
\<close>

definition tail_pr :: "(int \<Rightarrow> int \<Rightarrow> real \<Rightarrow> real) \<Rightarrow> real \<Rightarrow> nat \<Rightarrow> nat \<Rightarrow> real" where
  "tail_pr binom_pmf seq_err thre l =
     foldl (\<lambda>pr k. pr - binom_pmf (int k) (int l) seq_err) 1 [0..<thre]"

text \<open>
  The table of thresholds: for each \<open>thre\<close> in \<open>1..max_thre\<close>, the first \<open>l\<close> in
  \<open>1..max_len\<close> whose tail probability reaches \<open>p_value\<close>, if there is one, is appended
  to \<^verbatim>\<open>L\<close> and \<open>thre\<close> to \<^verbatim>\<open>Th\<close>; then the first entry of \<^verbatim>\<open>L\<close> is incremented, which
  raises when no threshold was found.
  \<^verbatim>\<open>
  L = []
  Th = []
  for thre in range(1, max_thre + 1):
      for l in range(1, max_len + 1):
          pr = ...
          if pr >= p_value:
              Th.append(thre)
              L.append(l)
              break
  L[0] += 1
  \<close>
  The result is the pair of the lists \<^verbatim>\<open>L\<close> and \<^verbatim>\<open>Th\<close>.
\<close>

definition threshold_table ::
  "(int \<Rightarrow> int \<Rightarrow> real \<Rightarrow> real) \<Rightarrow> real \<Rightarrow> real \<Rightarrow> nat \<Rightarrow> nat \<Rightarrow> error + nat list \<times> nat list" where
  "threshold_table binom_pmf seq_err p_value max_thre max_len =
     (let LTh = foldl (\<lambda>LTh thre.
            case find (\<lambda>l. tail_pr binom_pmf seq_err thre l \<ge> p_value) [1..<max_len + 1] of
              Some l \<Rightarrow> (fst LTh @ [l], snd LTh @ [thre])
            | None \<Rightarrow> LTh) ([], []) [1..<max_thre + 1]
      in if fst LTh = [] then Inl (IndexError ''list index out of range'')
         else Inr ((fst LTh)[0 := fst LTh ! 0 + 1], snd LTh))"

text \<open>
  \<^verbatim>\<open>
  for l in range(len(Th)):
      if nongap[i] < L[l]:
          mis_cri[i] = l + 1
          break
  if mis_cri[i] == 0:
      mis_cri[i] = len(Th) + 1
  \<close>
\<close>

definition mis_cri_of :: "nat list \<Rightarrow> nat list \<Rightarrow> int \<Rightarrow> int" where
  "mis_cri_of Ls Th nongap =
     (case find (\<lambda>l. nongap < int (Ls ! l)) [0..<length Th] of
        Some l \<Rightarrow> int l + 1
      | None \<Rightarrow> int (length Th) + 1)"

text \<open>
  The mismatch criteria of all reads, from the table built with \<^verbatim>\<open>max_thre = 20\<close>,
  \<^verbatim>\<open>max_len = 300\<close> and \<^verbatim>\<open>p_value = 10**-5\<close>; \<^verbatim>\<open>nongap = P_matrix.sum(axis=1)\<close>.
\<close>

definition ori_mis_cri_of ::
  "(int \<Rightarrow> int \<Rightarrow> real \<Rightarrow> real) \<Rightarrow> real \<Rightarrow> imatrix \<Rightarrow> error + int list" where
  "ori_mis_cri_of binom_pmf seq_err SNVmatrix =
     (case threshold_table binom_pmf seq_err (1 / 100000) 20 300 of
        Inl e \<Rightarrow> Inl e
      | Inr LTh \<Rightarrow>
          Inr (map (\<lambda>row. mis_cri_of (fst LTh) (snd LTh)
                            (int (length (filter (\<lambda>x. x \<noteq> 0) row)))) SNVmatrix))"

text \<open>
  The table of one read against the dominant haplotype \<^verbatim>\<open>V_flag\<close>: the number of
  identical nucleotides, the number of non-gap positions, and the Hamming distance.
  \<^verbatim>\<open>
  HD_table[:, 0] = ((M_E - V[domi_flag, :]) == 0).sum(axis=1)
  HD_table[:, 1] = (M_E != 0).sum(axis=1)
  HD_table[:, 2] = HD_table[:, 1] - HD_table[:, 0]
  \<close>
\<close>

definition HD_row :: "int list \<Rightarrow> int list \<Rightarrow> int \<times> int \<times> int" where
  "HD_row V_flag row =
     (let iden = int (length (filter (\<lambda>(a, b). a - b = 0) (zip row V_flag)));
          nongap = int (length (filter (\<lambda>a. a \<noteq> 0) row))
      in (iden, nongap, nongap - iden))"

definition HD_table :: "imatrix \<Rightarrow> int list \<Rightarrow> (int \<times> int \<times> int) list" where
  "HD_table M_E V_flag = map (HD_row V_flag) M_E"

text \<open>
  \<^verbatim>\<open>
  pos = np.where(M_E[i, :] != 0)[0]
  pr_variant = 1
  for j in range(len(pos)):
      pr_variant *= ACGTcount[pos[j], M_E[i, pos[j]] - 1] / sum(ACGTcount[pos[j], :])
  \<close>
\<close>

definition pr_variant_of :: "int list list \<Rightarrow> int list \<Rightarrow> real" where
  "pr_variant_of ACGTcount row =
     (let pos = filter (\<lambda>j. row ! j \<noteq> 0) [0..<length row]
      in foldl (\<lambda>pr j. pr * (real_of_int (ACGTcount ! j ! nat (row ! j - 1)) /
                              real_of_int (sum_list (ACGTcount ! j)))) 1 pos)"

text \<open>
  The selection loop: the indices of the reads assigned to the dominant haplotype.
  \<^verbatim>\<open>
  for i in range(num_read):
      if HD_table[i, 2] == 0:
          index.append(i)
      elif HD_table[i, 2] <= mis_cri[i]:
          ...
          pr_seq = binom.pmf(HD_table[i, 2], HD_table[i, 1], seq_err)
          if pr_seq > pr_variant:
              index.append(i)
  \<close>
\<close>

definition select_reads ::
  "(int \<Rightarrow> int \<Rightarrow> real \<Rightarrow> real) \<Rightarrow> real \<Rightarrow> int list list \<Rightarrow> imatrix \<Rightarrow> int list \<Rightarrow> int list \<Rightarrow>
   nat list" where
  "select_reads binom_pmf seq_err ACGTcount M_E mis_cri V_flag =
     (let HD = HD_table M_E V_flag
      in filter (\<lambda>i. case HD ! i of (iden, nongap, hamming) \<Rightarrow>
           if hamming = 0 then True
           else if hamming \<le> mis_cri ! i then
             (let pr_variant = pr_variant_of ACGTcount (M_E ! i);
                  pr_seq = binom_pmf hamming nongap seq_err
              in pr_seq > pr_variant)
           else False) [0..<length M_E])"


section \<open>Reassignment and MEC\<close>

text \<open>
  \<^verbatim>\<open>
  for i in range(len(reconV2[:, 0])):
      iden_table[:, i] = (SNVmatrix - reconV2[i, :] == 0).sum(axis=1)
  \<close>
  Row \<open>i\<close> of the table holds, for each haplotype, the number of positions where
  read \<open>i\<close> equals it.
\<close>

definition iden_table :: "imatrix \<Rightarrow> imatrix \<Rightarrow> int list list" where
  "iden_table S V =
     map (\<lambda>row. map (\<lambda>h. int (length (filter (\<lambda>(a, b). a - b = 0) (zip row h)))) V) S"

text \<open>\<^verbatim>\<open>np.argmax(T, axis=1)\<close>; numpy raises on rows of length 0.\<close>

definition argmax_axis1 :: "int list list \<Rightarrow> error + nat list" where
  "argmax_axis1 T =
     (if list_ex (\<lambda>r. r = []) T
      then Inl (ValueError ''attempt to get argmax of an empty sequence'')
      else Inr (map argmax T))"

text \<open>
  \<^verbatim>\<open>
  M = reconV2[true_ind, :]
  P_matrix = SNVmatrix.copy()
  P_matrix[P_matrix != 0] = 1
  MEC[svd_flag - 1] = len(np.where((SNVmatrix - M) * P_matrix != 0)[0])
  \<close>
\<close>

definition MEC_of :: "imatrix \<Rightarrow> imatrix \<Rightarrow> nat list \<Rightarrow> nat" where
  "MEC_of SNVmatrix reconV2 true_ind =
     (let M = map (\<lambda>a. reconV2 ! a) true_ind;
          P_matrix = map (map (\<lambda>x. if x \<noteq> 0 then 1 else x)) SNVmatrix;
          cells = map (\<lambda>i. map (\<lambda>j. (SNVmatrix ! i ! j - M ! i ! j) * P_matrix ! i ! j)
                    [0..<length (SNVmatrix ! i)]) [0..<length SNVmatrix]
      in length (filter (\<lambda>x. x \<noteq> 0) (concat cells)))"

text \<open>The final reassignment and the MEC of the haplotypes \<^verbatim>\<open>reconV2\<close>.\<close>

definition mec_score :: "imatrix \<Rightarrow> imatrix \<Rightarrow> error + nat" where
  "mec_score SNVmatrix reconV2 =
     (case argmax_axis1 (iden_table SNVmatrix reconV2) of
        Inl e \<Rightarrow> Inl e
      | Inr true_ind \<Rightarrow> Inr (MEC_of SNVmatrix reconV2 true_ind))"


section \<open>Alternating minimization\<close>

text \<open>A float that starts as \<^verbatim>\<open>np.inf\<close>.\<close>

datatype ext = Fin real | Inf

text \<open>\<^verbatim>\<open>x > t\<close> and \<^verbatim>\<open>x <= t\<close> for such a float.\<close>

definition ext_gt :: "ext \<Rightarrow> real \<Rightarrow> bool" where
  "ext_gt x t = (case x of Inf \<Rightarrow> True | Fin r \<Rightarrow> r > t)"

definition ext_le :: "ext \<Rightarrow> real \<Rightarrow> bool" where
  "ext_le x t = (case x of Inf \<Rightarrow> False | Fin r \<Rightarrow> r \<le> t)"

definition error_thre :: real where
  "error_thre = 1 / 100000"

definition max_ite :: nat where
  "max_ite = 2000"

text \<open>The variables of the loop; \<open>am_U\<close> is \<^verbatim>\<open>U = BV[min_index, :]\<close>.\<close>

record 'g am_state =
  am_ite :: nat
  am_err :: ext
  am_err_Com :: ext
  am_err_hap :: ext
  am_err_hist :: "real list"
  am_Vt :: rmatrix
  am_Vt_last :: rmatrix
  am_U :: "int list list"
  am_rng :: 'g

text \<open>\<^verbatim>\<open>np.tile(np.double(M_E != 0), (1, 4))\<close>\<close>

definition P_tensor_of :: "imatrix \<Rightarrow> rmatrix" where
  "P_tensor_of M_E =
     map (\<lambda>row. let p = map (\<lambda>x. if x \<noteq> 0 then 1 else 0) row in p @ p @ p @ p) M_E"

text \<open>\<^verbatim>\<open>np.sum(((TM_E - v) * P_tensor) ** 2, axis=1)\<close> for a row \<open>v\<close> of \<^verbatim>\<open>Vt\<close>.\<close>

definition proj_sq_dist :: "rmatrix \<Rightarrow> real list \<Rightarrow> rmatrix \<Rightarrow> real list" where
  "proj_sq_dist TM_E v P_tensor =
     map (\<lambda>n. sum_list (map (\<lambda>j. ((TM_E ! n ! j - v ! j) * P_tensor ! n ! j)\<^sup>2)
                [0..<length (TM_E ! n)])) [0..<length TM_E]"

text \<open>\<^verbatim>\<open>np.eye(R, dtype=int)\<close> and \<^verbatim>\<open>np.dot(U, Vt)\<close>.\<close>

definition eye :: "nat \<Rightarrow> int list list" where
  "eye R = map (\<lambda>i. map (\<lambda>k. if i = k then 1 else 0) [0..<R]) [0..<R]"

definition dot :: "int list list \<Rightarrow> rmatrix \<Rightarrow> rmatrix" where
  "dot A B =
     map (\<lambda>a. map (\<lambda>j. sum_list (map (\<lambda>k. real_of_int (a ! k) * B ! k ! j) [0..<length a]))
            [0..<length (hd B)]) A"

text \<open>\<^verbatim>\<open>np.linalg.norm(X, ord="fro")\<close>\<close>

definition fro_norm :: "rmatrix \<Rightarrow> real" where
  "fro_norm X = sqrt (sum_list (map (\<lambda>x. x\<^sup>2) (concat X)))"

definition mat_sub :: "rmatrix \<Rightarrow> rmatrix \<Rightarrow> rmatrix" where
  "mat_sub A B = map (\<lambda>(a, b). map (\<lambda>(x, y). x - y) (zip a b)) (zip A B)"

definition mat_mul :: "rmatrix \<Rightarrow> rmatrix \<Rightarrow> rmatrix" where
  "mat_mul A B = map (\<lambda>(a, b). map (\<lambda>(x, y). x * y) (zip a b)) (zip A B)"

text \<open>
  One iteration of the loop: the U-update (each read goes to the nearest haplotype),
  the V-update (majority vote) and the termination quantities.
  \<^verbatim>\<open>
  ite += 1
  U = np.zeros((num_read, R))
  for i in range(R):
      U[:, i] = np.sum(((TM_E - Vt[i, :]) * P_tensor) ** 2, axis=1)
  min_index = np.argmin(U, axis=1)
  U = BV[min_index.astype(int), :]
  V_major = ...
  Vt = np.concatenate((np.double(V_major == 1), ..., np.double(V_major == 4)), axis=1)
  err = np.linalg.norm((TM_E - np.dot(U, Vt)) * P_tensor, ord="fro")
  err_hist[0, ite - 1] = err
  if ite > 1:
      err_Com = abs(err_hist[0, ite - 1] - err_hist[0, ite - 2])
  err_hap = np.linalg.norm(Vt - Vt_last, ord="fro") / np.sqrt(4 * hap_len / R)
  Vt_last = Vt.copy()
  \<close>
\<close>

definition am_step ::
  "('g \<Rightarrow> real \<times> 'g) \<Rightarrow> imatrix \<Rightarrow> nat \<Rightarrow> nat \<Rightarrow> 'g am_state \<Rightarrow> 'g am_state" where
  "am_step rnd M_E R hap_len s =
     (let TM_E = tensor_encode M_E;
          P_tensor = P_tensor_of M_E;
          ACGTcount = counts hap_len M_E;
          ite = am_ite s + 1;
          dist = map (\<lambda>i. proj_sq_dist TM_E (am_Vt s ! i) P_tensor) [0..<R];
          min_index = map (\<lambda>n. argmin (map (\<lambda>i. dist ! i ! n) [0..<R])) [0..<length M_E];
          U = map (\<lambda>k. eye R ! k) min_index;
          Vg = major_vote rnd ACGTcount hap_len M_E min_index R (am_rng s);
          Vt = tensor_encode (fst Vg);
          err = fro_norm (mat_mul (mat_sub TM_E (dot U Vt)) P_tensor);
          err_hist = (am_err_hist s)[ite - 1 := err];
          err_Com = (if ite > 1 then Fin \<bar>err_hist ! (ite - 1) - err_hist ! (ite - 2)\<bar>
                     else am_err_Com s);
          err_hap = fro_norm (mat_sub Vt (am_Vt_last s)) / sqrt (4 * real hap_len / real R)
      in \<lparr>am_ite = ite, am_err = Fin err, am_err_Com = err_Com, am_err_hap = Fin err_hap,
          am_err_hist = err_hist, am_Vt = Vt, am_Vt_last = Vt, am_U = U, am_rng = snd Vg\<rparr>)"

text \<open>
  The state before the loop, from the initial real-valued haplotypes \<open>Vt\<close>:
  \<^verbatim>\<open>
  ite = 0; err = np.inf; err_Com = np.inf; err_hap = np.inf
  err_hist = np.zeros((1, max_ite))
  Vt_last = 100 * np.ones((R, 4 * hap_len))
  \<close>
  \<^verbatim>\<open>U\<close> is not yet assigned.
\<close>

definition am_init :: "nat \<Rightarrow> nat \<Rightarrow> rmatrix \<Rightarrow> 'g \<Rightarrow> 'g am_state" where
  "am_init R hap_len Vt g =
     \<lparr>am_ite = 0, am_err = Inf, am_err_Com = Inf, am_err_hap = Inf,
      am_err_hist = replicate max_ite 0, am_Vt = Vt,
      am_Vt_last = replicate R (replicate (4 * hap_len) 100), am_U = [], am_rng = g\<rparr>"

text \<open>
  \<^verbatim>\<open>
  while (err_hap > error_thre and err > error_thre and err_Com > error_thre
         and ite < max_ite):
  \<close>
\<close>

definition am_continue :: "'g am_state \<Rightarrow> bool" where
  "am_continue s =
     (ext_gt (am_err_hap s) error_thre \<and> ext_gt (am_err s) error_thre \<and>
      ext_gt (am_err_Com s) error_thre \<and> am_ite s < max_ite)"

function am_loop ::
  "('g \<Rightarrow> real \<times> 'g) \<Rightarrow> imatrix \<Rightarrow> nat \<Rightarrow> nat \<Rightarrow> 'g am_state \<Rightarrow> 'g am_state" where
  "am_loop rnd M_E R hap_len s =
     (if am_continue s then am_loop rnd M_E R hap_len (am_step rnd M_E R hap_len s) else s)"
  by pat_completeness auto
termination
  by (relation "measure (\<lambda>(rnd, M_E, R, hap_len, s). max_ite - am_ite s)")
     (auto simp: am_continue_def am_step_def Let_def)

declare am_loop.simps [simp del]


section \<open>Successive clustering\<close>

text \<open>\<^verbatim>\<open>np.delete(xs, index, 0)\<close>: \<open>xs\<close> without the rows whose index is in \<open>index\<close>.\<close>

definition np_delete :: "'a list \<Rightarrow> nat list \<Rightarrow> 'a list" where
  "np_delete xs index = map snd (filter (\<lambda>(i, x). i \<notin> set index) (zip [0..<length xs] xs))"

text \<open>
  The variables of the successive clustering of one \<open>(K, sign)\<close> attempt: the active
  reads, their mismatch criteria, the recorded haplotypes, the next slot, the current
  rank, and the random source.
\<close>

record 'g sc_state =
  sc_M_E :: imatrix
  sc_mis_cri :: "int list"
  sc_reconV :: imatrix
  sc_num_V :: nat
  sc_R :: nat
  sc_rng :: 'g

text \<open>
  The truncated SVD \<^verbatim>\<open>sp.sparse.linalg.svds(TM_E, R)\<close> of scipy is a parameter \<open>svds\<close>
  of the model, returning the singular values and \<^verbatim>\<open>Vt\<close>, or raising.
  \<^verbatim>\<open>
  Vt = np.dot(np.diag(np.sqrt(S)), Vt)
  Vt = Vt[::-1]
  if svd_flag == 2:
      Vt = -Vt
  \<close>
\<close>

definition Vt_init :: "real list \<Rightarrow> rmatrix \<Rightarrow> nat \<Rightarrow> rmatrix" where
  "Vt_init S Vt svd_flag =
     (let Vt1 = map (\<lambda>(x, row). map (\<lambda>y. sqrt x * y) row) (zip S Vt);
          Vt2 = rev Vt1
      in if svd_flag = 2 then map (map uminus) Vt2 else Vt2)"

text \<open>The SVD and the alternating minimization of one iteration.\<close>

definition sc_am ::
  "(rmatrix \<Rightarrow> nat \<Rightarrow> error + real list \<times> rmatrix) \<Rightarrow> ('g \<Rightarrow> real \<times> 'g) \<Rightarrow> nat \<Rightarrow> nat \<Rightarrow>
   'g sc_state \<Rightarrow> error + 'g am_state" where
  "sc_am svds rnd hap_len svd_flag s =
     (case svds (tensor_encode (sc_M_E s)) (sc_R s) of
        Inl e \<Rightarrow> Inl e
      | Inr SVt \<Rightarrow>
          Inr (am_loop rnd (sc_M_E s) (sc_R s) hap_len
                 (am_init (sc_R s) hap_len (Vt_init (fst SVt) (snd SVt) svd_flag) (sc_rng s))))"

text \<open>\<^verbatim>\<open>domi_flag = np.argmax(U.sum(axis=0))\<close>\<close>

definition domi_flag_of :: "int list list \<Rightarrow> nat \<Rightarrow> nat" where
  "domi_flag_of U R = argmax (map (\<lambda>r. sum_list (map (\<lambda>u. u ! r) U)) [0..<R])"

text \<open>\<^verbatim>\<open>V_flag = V[domi_flag, :]\<close> for the decoded haplotypes \<^verbatim>\<open>V\<close>.\<close>

definition V_flag_of :: "nat \<Rightarrow> 'g sc_state \<Rightarrow> 'g am_state \<Rightarrow> int list" where
  "V_flag_of hap_len s a =
     tensor_decode (sc_R s) hap_len (am_Vt a) ! domi_flag_of (am_U a) (sc_R s)"

text \<open>The reads selected for the dominant haplotype (\<^verbatim>\<open>index\<close>).\<close>

definition sc_index ::
  "(int \<Rightarrow> int \<Rightarrow> real \<Rightarrow> real) \<Rightarrow> real \<Rightarrow> nat \<Rightarrow> 'g sc_state \<Rightarrow> 'g am_state \<Rightarrow> nat list" where
  "sc_index binom_pmf seq_err hap_len s a =
     select_reads binom_pmf seq_err (counts hap_len (sc_M_E s)) (sc_M_E s) (sc_mis_cri s)
       (V_flag_of hap_len s a)"

text \<open>
  The additional majority vote, the record of the haplotype and the removal of the
  selected reads:
  \<^verbatim>\<open>
  addi_count = ACGT_count(M_E[index, :])
  V[domi_flag, :] = (np.argmax(addi_count, axis=1) + 1) * np.double(
      np.sum(addi_count, axis=1) != 0) + V_flag * np.double(np.sum(addi_count, axis=1) == 0)
  reconV[num_V - 1, :] = V[domi_flag, :]
  mis_cri = np.delete(mis_cri, index, 0)
  M_E = np.delete(M_E, index, 0)
  num_V += 1
  R -= 1
  \<close>
\<close>

definition sc_peel :: "nat \<Rightarrow> 'g sc_state \<Rightarrow> 'g am_state \<Rightarrow> nat list \<Rightarrow> 'g sc_state" where
  "sc_peel hap_len s a index =
     (let V_flag = V_flag_of hap_len s a;
          addi_count = counts hap_len (map (\<lambda>i. sc_M_E s ! i) index);
          V_domi = map (\<lambda>j. (int (argmax (addi_count ! j)) + 1) *
                              (if sum_list (addi_count ! j) \<noteq> 0 then 1 else 0) +
                            V_flag ! j * (if sum_list (addi_count ! j) = 0 then 1 else 0))
                     [0..<hap_len]
      in \<lparr>sc_M_E = np_delete (sc_M_E s) index,
          sc_mis_cri = np_delete (sc_mis_cri s) index,
          sc_reconV = (sc_reconV s)[sc_num_V s - 1 := V_domi],
          sc_num_V = sc_num_V s + 1,
          sc_R = sc_R s - 1,
          sc_rng = am_rng a\<rparr>)"

text \<open>
  The loop. The result says how it ended: \<open>True\<close> when its condition failed
  (the branch's \<^verbatim>\<open>alt_tag\<close> is still 1), \<open>False\<close> when no read was selected
  (\<^verbatim>\<open>alt_tag = 0; break\<close>).
  \<^verbatim>\<open>
  while R != 0 and len(M_E[:, 0]) > R:
      ...
      if len(index) == 0:
          if svd_flag == 1:
              alt_tag1 = 0
              break
          else:
              alt_tag2 = 0
              break
      ...
  \<close>
\<close>

function sc_loop ::
  "(rmatrix \<Rightarrow> nat \<Rightarrow> error + real list \<times> rmatrix) \<Rightarrow> (int \<Rightarrow> int \<Rightarrow> real \<Rightarrow> real) \<Rightarrow> real \<Rightarrow>
   ('g \<Rightarrow> real \<times> 'g) \<Rightarrow> nat \<Rightarrow> nat \<Rightarrow> 'g sc_state \<Rightarrow> error + bool \<times> 'g sc_state" where
  "sc_loop svds binom_pmf seq_err rnd hap_len svd_flag s =
     (if sc_R s \<noteq> 0 \<and> length (sc_M_E s) > sc_R s then
        (case sc_am svds rnd hap_len svd_flag s of
           Inl e \<Rightarrow> Inl e
         | Inr a \<Rightarrow>
             if length (sc_index binom_pmf seq_err hap_len s a) = 0
             then Inr (False, s\<lparr>sc_rng := am_rng a\<rparr>)
             else sc_loop svds binom_pmf seq_err rnd hap_len svd_flag
                    (sc_peel hap_len s a (sc_index binom_pmf seq_err hap_len s a)))
      else Inr (True, s))"
  by pat_completeness auto
termination
  by (relation "measure (\<lambda>(svds, binom_pmf, seq_err, rnd, hap_len, svd_flag, s). sc_R s)")
     (auto simp: sc_peel_def Let_def)

declare sc_loop.simps [simp del]


text \<open>
  The state in which a branch starts its successive clustering:
  \<^verbatim>\<open>
  R = K_ite
  M_E = SNVmatrix.copy()
  mis_cri = ori_mis_cri.copy()
  num_V = 1
  reconV = np.zeros((R, hap_len), dtype=int)
  \<close>
\<close>

definition sc_init :: "imatrix \<Rightarrow> int list \<Rightarrow> nat \<Rightarrow> nat \<Rightarrow> 'g \<Rightarrow> 'g sc_state" where
  "sc_init SNVmatrix ori_mis_cri hap_len K_ite g =
     \<lparr>sc_M_E = SNVmatrix, sc_mis_cri = ori_mis_cri,
      sc_reconV = replicate K_ite (replicate hap_len 0),
      sc_num_V = 1, sc_R = K_ite, sc_rng = g\<rparr>"


section \<open>One sign branch and one rank\<close>

text \<open>
  What a branch leaves behind: its \<^verbatim>\<open>alt_tag\<close> (\<open>True\<close> for 1),
  \<^verbatim>\<open>MEC[svd_flag - 1]\<close>, \<^verbatim>\<open>hap_num[svd_flag - 1]\<close> and its \<^verbatim>\<open>reconV2\<close>
  (\<^verbatim>\<open>reconV3\<close> or \<^verbatim>\<open>reconV4\<close>), if it assigned one.
\<close>

record branch =
  br_alt_tag :: bool
  br_MEC :: ext
  br_hap_num :: nat
  br_reconV2 :: "imatrix option"

text \<open>
  One pass of \<^verbatim>\<open>for svd_flag in range(1, 3)\<close>: the successive clustering from the
  whole read matrix and, when the branch did not fail, the reassignment, the second
  majority vote and the MEC. \<^verbatim>\<open>MEC\<close> starts as \<^verbatim>\<open>[np.inf, np.inf]\<close> and
  \<^verbatim>\<open>hap_num\<close> as zeros.
\<close>

definition run_branch ::
  "(rmatrix \<Rightarrow> nat \<Rightarrow> error + real list \<times> rmatrix) \<Rightarrow> (int \<Rightarrow> int \<Rightarrow> real \<Rightarrow> real) \<Rightarrow> real \<Rightarrow>
   ('g \<Rightarrow> real \<times> 'g) \<Rightarrow> imatrix \<Rightarrow> int list \<Rightarrow> nat \<Rightarrow> nat \<Rightarrow> nat \<Rightarrow> 'g \<Rightarrow>
   error + branch \<times> 'g" where
  "run_branch svds binom_pmf seq_err rnd SNVmatrix ori_mis_cri hap_len K_ite svd_flag g =
     (case sc_loop svds binom_pmf seq_err rnd hap_len svd_flag
             (sc_init SNVmatrix ori_mis_cri hap_len K_ite g) of
        Inl e \<Rightarrow> Inl e
      | Inr (alt_tag, s) \<Rightarrow>
          if alt_tag then
            (case argmax_axis1 (iden_table SNVmatrix (take (sc_num_V s - 1) (sc_reconV s))) of
               Inl e \<Rightarrow> Inl e
             | Inr index \<Rightarrow>
                 let Vg = major_vote rnd (counts hap_len SNVmatrix) hap_len SNVmatrix index
                            (sc_num_V s - 1) (sc_rng s);
                     reconV2 = fst Vg
                 in (case mec_score SNVmatrix reconV2 of
                       Inl e \<Rightarrow> Inl e
                     | Inr mec \<Rightarrow>
                         Inr (\<lparr>br_alt_tag = True, br_MEC = Fin (real mec),
                               br_hap_num = length reconV2, br_reconV2 = Some reconV2\<rparr>,
                              snd Vg)))
          else Inr (\<lparr>br_alt_tag = False, br_MEC = Inf, br_hap_num = 0, br_reconV2 = None\<rparr>,
                    sc_rng s))"

text \<open>
  The evaluation of one rank \<^verbatim>\<open>K_ite\<close> that is not yet in the table: both branches.
\<close>

record kres =
  k_alt_tag1 :: bool
  k_alt_tag2 :: bool
  k_MEC :: "ext list"
  k_hap_num :: "nat list"
  k_reconV3 :: "imatrix option"
  k_reconV4 :: "imatrix option"

definition eval_K ::
  "(rmatrix \<Rightarrow> nat \<Rightarrow> error + real list \<times> rmatrix) \<Rightarrow> (int \<Rightarrow> int \<Rightarrow> real \<Rightarrow> real) \<Rightarrow> real \<Rightarrow>
   ('g \<Rightarrow> real \<times> 'g) \<Rightarrow> imatrix \<Rightarrow> int list \<Rightarrow> nat \<Rightarrow> nat \<Rightarrow> 'g \<Rightarrow> error + kres \<times> 'g" where
  "eval_K svds binom_pmf seq_err rnd SNVmatrix ori_mis_cri hap_len K_ite g =
     (case run_branch svds binom_pmf seq_err rnd SNVmatrix ori_mis_cri hap_len K_ite 1 g of
        Inl e \<Rightarrow> Inl e
      | Inr b1 \<Rightarrow>
          (case run_branch svds binom_pmf seq_err rnd SNVmatrix ori_mis_cri hap_len K_ite 2
                  (snd b1) of
             Inl e \<Rightarrow> Inl e
           | Inr b2 \<Rightarrow>
               Inr (\<lparr>k_alt_tag1 = br_alt_tag (fst b1), k_alt_tag2 = br_alt_tag (fst b2),
                     k_MEC = [br_MEC (fst b1), br_MEC (fst b2)],
                     k_hap_num = [br_hap_num (fst b1), br_hap_num (fst b2)],
                     k_reconV3 = br_reconV2 (fst b1), k_reconV4 = br_reconV2 (fst b2)\<rparr>,
                    snd b2)))"


section \<open>Rank estimation\<close>

text \<open>
  The MEC change rate \<^verbatim>\<open>(a - b) / a\<close> of two table entries is a numpy float: a
  division by zero gives \<^verbatim>\<open>nan\<close> or an infinity, not an exception.
\<close>

datatype rate = Rate real | NaN | PosInf | NegInf

definition rate_of :: "ext \<Rightarrow> ext \<Rightarrow> rate" where
  "rate_of a b =
     (case a of
        Inf \<Rightarrow> NaN
      | Fin x \<Rightarrow>
          (case b of
             Inf \<Rightarrow> NegInf
           | Fin y \<Rightarrow>
               if x \<noteq> 0 then Rate ((x - y) / x)
               else if x - y = 0 then NaN
               else if x - y > 0 then PosInf else NegInf))"

text \<open>\<^verbatim>\<open>r > t\<close>: false for \<^verbatim>\<open>nan\<close>.\<close>

definition rate_gt :: "rate \<Rightarrow> real \<Rightarrow> bool" where
  "rate_gt r t = (case r of Rate v \<Rightarrow> v > t | PosInf \<Rightarrow> True | NaN \<Rightarrow> False | NegInf \<Rightarrow> False)"

text \<open>
  A column of \<^verbatim>\<open>MEC_table\<close> (5 rows, 50 columns, zeros at first): the rank, the number
  of haplotypes returned, the MEC, the recall (never set) and the MEC change rate.
\<close>

record col =
  c_K :: nat
  c_hap_num :: nat
  c_MEC :: ext
  c_recall :: real
  c_rate :: rate

definition zero_col :: col where
  "zero_col = \<lparr>c_K = 0, c_hap_num = 0, c_MEC = Fin 0, c_recall = 0, c_rate = Rate 0\<rparr>"

text \<open>
  A numpy index into an axis of size \<open>n\<close>: negative indices count from the end, and
  an index outside \<open>[-n, n)\<close> raises.
\<close>

definition py_index :: "int \<Rightarrow> nat \<Rightarrow> error + nat" where
  "py_index i n =
     (if 0 \<le> i \<and> i < int n then Inr (nat i)
      else if - int n \<le> i \<and> i < 0 then Inr (nat (i + int n))
      else Inl (IndexError ''index is out of bounds for axis 1''))"

text \<open>\<^verbatim>\<open>np.where(MEC_table[0, :] == K)[0]\<close>, as its first entry if there is one.\<close>

definition first_K :: "col list \<Rightarrow> nat \<Rightarrow> nat option" where
  "first_K tbl K = find (\<lambda>i. c_K (tbl ! i) = K) [0..<length tbl]"

text \<open>
  \<^verbatim>\<open>math.log2(a / b) % 1 == 0\<close> for integers \<open>a\<close> (a numpy integer) and \<open>b\<close>: with
  \<open>b = 0\<close> the quotient is an infinity or \<^verbatim>\<open>nan\<close> and the test is false; with
  \<open>a = 0\<close> \<^verbatim>\<open>math.log2\<close> raises; otherwise the test holds when \<open>a / b\<close> is a power
  of two (with an exponent of either sign).
\<close>

definition is_pow2 :: "nat \<Rightarrow> bool" where
  "is_pow2 n = list_ex (\<lambda>k. n = 2 ^ k) [0..<Suc n]"

definition log2_is_int :: "nat \<Rightarrow> nat \<Rightarrow> error + bool" where
  "log2_is_int a b =
     (if b = 0 then Inr False
      else if a = 0 then Inl (ValueError ''math domain error'')
      else Inr ((a mod b = 0 \<and> is_pow2 (a div b)) \<or> (b mod a = 0 \<and> is_pow2 (b div a))))"

text \<open>
  The variables of the rank estimation: \<^verbatim>\<open>K\<close>, \<^verbatim>\<open>K_table\<close> (as \<open>rk_low\<close> and
  \<open>rk_high\<close>), \<^verbatim>\<open>K_count\<close>, \<^verbatim>\<open>MEC_table\<close>, the flags and \<^verbatim>\<open>ori_K\<close> left by the
  last evaluation, the variables \<^verbatim>\<open>reconVK<K>\<close> (the pairs of a rank and its value,
  the latest assignment first) and the random source.
\<close>

record 'g rank_state =
  rk_K :: nat
  rk_low :: nat
  rk_high :: nat
  rk_K_count :: nat
  rk_MEC_table :: "col list"
  rk_alt_tag1 :: bool
  rk_alt_tag2 :: bool
  rk_ori_K :: nat
  rk_reconVK :: "(nat \<times> imatrix) list"
  rk_rng :: 'g

text \<open>\<^verbatim>\<open>np.argmin(MEC)\<close> and \<^verbatim>\<open>min(MEC)\<close> of the two entries of \<^verbatim>\<open>MEC\<close>.\<close>

definition ext_less :: "ext \<Rightarrow> ext \<Rightarrow> bool" where
  "ext_less a b = (case a of Inf \<Rightarrow> False | Fin x \<Rightarrow> (case b of Inf \<Rightarrow> True | Fin y \<Rightarrow> x < y))"

definition MEC_index_of :: "ext list \<Rightarrow> nat" where
  "MEC_index_of MEC = (if ext_less (MEC ! 1) (MEC ! 0) then 1 else 0)"

text \<open>
  The body of \<^verbatim>\<open>for K_ite in range(K, K + 2)\<close> for one \<^verbatim>\<open>K_ite\<close>. The evaluation of
  a rank that is not in the table is the parameter \<open>evalK\<close>. The result says whether
  the loop was left by \<^verbatim>\<open>break\<close>.
  \<^verbatim>\<open>
  if len(np.where(MEC_table[0, :] == K_ite)[0]) == 0:
      ...
      if alt_tag1 == 0 and alt_tag2 == 0:
          K_count += 1
          break
      MEC_table[0, K_count - 1] = ori_K
      MEC_index = np.argmin(MEC)
      MEC_table[1, K_count - 1] = hap_num[MEC_index]
      MEC_table[2, K_count - 1] = min(MEC)
      MEC_table[3, K_count - 1] = recall[MEC_index]
      K_count += 1
      if MEC_index == 0:
          reconV5 = reconV3.copy()
      else:
          reconV5 = reconV4.copy()
      exec("reconVK" + str(K_ite) + " = reconV5")
  else:
      MEC_table[:, K_count - 1] = MEC_table[:, np.where(MEC_table[0, :] == K_ite)[0][0]]
      K_count += 1
  \<close>
\<close>

definition rank_slot ::
  "(nat \<Rightarrow> 'g \<Rightarrow> error + kres \<times> 'g) \<Rightarrow> nat \<Rightarrow> 'g rank_state \<Rightarrow> error + bool \<times> 'g rank_state" where
  "rank_slot evalK K_ite s =
     (case first_K (rk_MEC_table s) K_ite of
        None \<Rightarrow>
          (case evalK K_ite (rk_rng s) of
             Inl e \<Rightarrow> Inl e
           | Inr rg \<Rightarrow>
               let r = fst rg;
                   s1 = s\<lparr>rk_alt_tag1 := k_alt_tag1 r, rk_alt_tag2 := k_alt_tag2 r,
                          rk_ori_K := K_ite, rk_rng := snd rg\<rparr>
               in if \<not> k_alt_tag1 r \<and> \<not> k_alt_tag2 r
                  then Inr (True, s1\<lparr>rk_K_count := rk_K_count s + 1\<rparr>)
                  else
                    (case py_index (int (rk_K_count s) - 1) (length (rk_MEC_table s)) of
                       Inl e \<Rightarrow> Inl e
                     | Inr i \<Rightarrow>
                         let MEC_index = MEC_index_of (k_MEC r);
                             c = (rk_MEC_table s ! i)
                                   \<lparr>c_K := K_ite, c_hap_num := k_hap_num r ! MEC_index,
                                    c_MEC := k_MEC r ! MEC_index, c_recall := 0\<rparr>
                         in (case (if MEC_index = 0 then k_reconV3 r else k_reconV4 r) of
                               None \<Rightarrow> Inl (NameError ''reconV is not defined'')
                             | Some reconV5 \<Rightarrow>
                                 Inr (False,
                                   s1\<lparr>rk_MEC_table := (rk_MEC_table s)[i := c],
                                      rk_K_count := rk_K_count s + 1,
                                      rk_reconVK := (K_ite, reconV5) # rk_reconVK s\<rparr>))))
      | Some k \<Rightarrow>
          (case py_index (int (rk_K_count s) - 1) (length (rk_MEC_table s)) of
             Inl e \<Rightarrow> Inl e
           | Inr i \<Rightarrow>
               Inr (False, s\<lparr>rk_MEC_table := (rk_MEC_table s)[i := rk_MEC_table s ! k],
                              rk_K_count := rk_K_count s + 1\<rparr>)))"

text \<open>
  The update of the bounds after the two evaluations (``rank estimation details''):
  \<^verbatim>\<open>
  if alt_tag1 == 0 and alt_tag2 == 0:
      MEC_table[0, K_count - 2] = ori_K
      K_table[0] = ori_K
      if K_table[1] == 0:
          K *= 2
      else:
          K = np.floor(sum(K_table) / 2)
  else:
      MEC_table[4, K_count - 3] = (
          MEC_table[2, K_count - 3] - MEC_table[2, K_count - 2]) / MEC_table[2, K_count - 3]
      if MEC_table[4, K_count - 3] > MEC_thre:
          K_table[0] = MEC_table[0, K_count - 3]
          if math.log2(K_table[0] / K_step) % 1 == 0:
              K *= 2
          else:
              K = np.floor(sum(K_table) / 2)
      else:
          K_table[1] = MEC_table[0, K_count - 3]
          K = np.floor(sum(K_table) / 2)
  \<close>
\<close>

definition rank_update :: "real \<Rightarrow> nat \<Rightarrow> 'g rank_state \<Rightarrow> error + 'g rank_state" where
  "rank_update MEC_thre K_step s =
     (let tbl = rk_MEC_table s in
      if \<not> rk_alt_tag1 s \<and> \<not> rk_alt_tag2 s then
        (case py_index (int (rk_K_count s) - 2) (length tbl) of
           Inl e \<Rightarrow> Inl e
         | Inr i \<Rightarrow>
             Inr (s\<lparr>rk_MEC_table := tbl[i := (tbl ! i)\<lparr>c_K := rk_ori_K s\<rparr>],
                    rk_low := rk_ori_K s,
                    rk_K := (if rk_high s = 0 then rk_K s * 2
                             else (rk_ori_K s + rk_high s) div 2)\<rparr>))
      else
        (case py_index (int (rk_K_count s) - 3) (length tbl) of
           Inl e \<Rightarrow> Inl e
         | Inr i3 \<Rightarrow>
             (case py_index (int (rk_K_count s) - 2) (length tbl) of
                Inl e \<Rightarrow> Inl e
              | Inr i2 \<Rightarrow>
                  let r = rate_of (c_MEC (tbl ! i3)) (c_MEC (tbl ! i2));
                      tbl' = tbl[i3 := (tbl ! i3)\<lparr>c_rate := r\<rparr>]
                  in if rate_gt r MEC_thre then
                       (case log2_is_int (c_K (tbl' ! i3)) K_step of
                          Inl e \<Rightarrow> Inl e
                        | Inr p \<Rightarrow>
                            Inr (s\<lparr>rk_MEC_table := tbl', rk_low := c_K (tbl' ! i3),
                                   rk_K := (if p then rk_K s * 2
                                            else (c_K (tbl' ! i3) + rk_high s) div 2)\<rparr>))
                     else
                       Inr (s\<lparr>rk_MEC_table := tbl', rk_high := c_K (tbl' ! i3),
                              rk_K := (rk_low s + c_K (tbl' ! i3)) div 2\<rparr>))))"

text \<open>One iteration of the \<^verbatim>\<open>while\<close> loop of the rank estimation.\<close>

definition rank_step ::
  "(nat \<Rightarrow> 'g \<Rightarrow> error + kres \<times> 'g) \<Rightarrow> real \<Rightarrow> nat \<Rightarrow> 'g rank_state \<Rightarrow> error + 'g rank_state" where
  "rank_step evalK MEC_thre K_step s =
     (case rank_slot evalK (rk_K s) s of
        Inl e \<Rightarrow> Inl e
      | Inr bs1 \<Rightarrow>
          if fst bs1 then rank_update MEC_thre K_step (snd bs1)
          else
            (case rank_slot evalK (rk_K s + 1) (snd bs1) of
               Inl e \<Rightarrow> Inl e
             | Inr bs2 \<Rightarrow> rank_update MEC_thre K_step (snd bs2)))"


text \<open>
  Each iteration moves \<^verbatim>\<open>K_count\<close> forward, and an iteration that returns has found
  column \<^verbatim>\<open>K_count - 2\<close> inside the table: this is why the loop below is total.
\<close>

lemma rank_slot_count:
  assumes "rank_slot evalK K_ite s = Inr bs"
  shows "rk_K_count (snd bs) = rk_K_count s + 1 \<and>
         length (rk_MEC_table (snd bs)) = length (rk_MEC_table s)"
  using assms
  by (auto simp: rank_slot_def Let_def split: option.splits sum.splits if_splits)

lemma rank_update_count:
  assumes "rank_update MEC_thre K_step s = Inr s'"
  shows "rk_K_count s' = rk_K_count s \<and>
         length (rk_MEC_table s') = length (rk_MEC_table s) \<and>
         int (rk_K_count s) - 2 < int (length (rk_MEC_table s))"
  using assms
  by (auto simp: rank_update_def py_index_def Let_def split: sum.splits if_splits)

lemma rank_step_count:
  assumes "rank_step evalK MEC_thre K_step s = Inr s'"
  shows "rk_K_count s < rk_K_count s' \<and>
         length (rk_MEC_table s') = length (rk_MEC_table s) \<and>
         rk_K_count s' < length (rk_MEC_table s) + 2"
proof -
  from assms obtain bs1 where s1: "rank_slot evalK (rk_K s) s = Inr bs1"
    by (auto simp: rank_step_def split: sum.splits)
  note c1 = rank_slot_count [OF s1]
  show ?thesis
  proof (cases "fst bs1")
    case True
    with assms s1 have "rank_update MEC_thre K_step (snd bs1) = Inr s'"
      by (simp add: rank_step_def)
    from rank_update_count [OF this] c1 show ?thesis by auto
  next
    case False
    with assms s1 obtain bs2 where s2: "rank_slot evalK (rk_K s + 1) (snd bs1) = Inr bs2"
      and u: "rank_update MEC_thre K_step (snd bs2) = Inr s'"
      by (auto simp: rank_step_def split: sum.splits)
    from rank_update_count [OF u] rank_slot_count [OF s2] c1 show ?thesis by auto
  qed
qed

text \<open>
  \<^verbatim>\<open>
  while K_table[1] - K_table[0] != 1:
      K = int(K)
      for K_ite in range(K, K + 2):
          ...
  \<close>
\<close>

function rank_loop ::
  "(nat \<Rightarrow> 'g \<Rightarrow> error + kres \<times> 'g) \<Rightarrow> real \<Rightarrow> nat \<Rightarrow> 'g rank_state \<Rightarrow> error + 'g rank_state" where
  "rank_loop evalK MEC_thre K_step s =
     (if int (rk_high s) - int (rk_low s) \<noteq> 1 then
        (case rank_step evalK MEC_thre K_step s of
           Inl e \<Rightarrow> Inl e
         | Inr s' \<Rightarrow> rank_loop evalK MEC_thre K_step s')
      else Inr s)"
  by pat_completeness auto
termination
proof (relation "measure (\<lambda>(evalK, MEC_thre, K_step, s).
                   length (rk_MEC_table s) + 2 - rk_K_count s)")
  show "wf (measure (\<lambda>(evalK :: nat \<Rightarrow> 'g \<Rightarrow> error + kres \<times> 'g, MEC_thre :: real, K_step :: nat,
                      s :: 'g rank_state). length (rk_MEC_table s) + 2 - rk_K_count s))"
    by simp
next
  fix evalK :: "nat \<Rightarrow> 'g \<Rightarrow> error + kres \<times> 'g" and MEC_thre :: real and K_step :: nat
    and s s' :: "'g rank_state"
  assume "rank_step evalK MEC_thre K_step s = Inr s'"
  from rank_step_count [OF this]
  show "((evalK, MEC_thre, K_step, s'), (evalK, MEC_thre, K_step, s)) \<in>
        measure (\<lambda>(evalK, MEC_thre, K_step, s). length (rk_MEC_table s) + 2 - rk_K_count s)"
    by (simp, arith)
qed

declare rank_loop.simps [simp del]

text \<open>
  The whole estimation, from the initial \<^verbatim>\<open>K\<close> (also \<^verbatim>\<open>K_step\<close>), with
  \<^verbatim>\<open>K_table = [1, 0]\<close>, \<^verbatim>\<open>K_count = 1\<close> and an empty table, to the choice after the
  loop:
  \<^verbatim>\<open>
  i = np.where(MEC_table[0, :] == K_table[1])[0][0]
  reconV2 = eval("reconVK" + str(int(MEC_table[0, i])))
  \<close>
  The flags and \<^verbatim>\<open>ori_K\<close> are assigned by the first evaluation before they are read.
\<close>

definition rank_init :: "nat \<Rightarrow> 'g \<Rightarrow> 'g rank_state" where
  "rank_init K g =
     \<lparr>rk_K = K, rk_low = 1, rk_high = 0, rk_K_count = 1,
      rk_MEC_table = replicate 50 zero_col, rk_alt_tag1 = True, rk_alt_tag2 = True,
      rk_ori_K = 0, rk_reconVK = [], rk_rng = g\<rparr>"

definition rank_estimation ::
  "(nat \<Rightarrow> 'g \<Rightarrow> error + kres \<times> 'g) \<Rightarrow> real \<Rightarrow> nat \<Rightarrow> 'g \<Rightarrow>
   error + nat \<times> imatrix \<times> 'g rank_state" where
  "rank_estimation evalK MEC_thre K g =
     (case rank_loop evalK MEC_thre K (rank_init K g) of
        Inl e \<Rightarrow> Inl e
      | Inr s \<Rightarrow>
          (case first_K (rk_MEC_table s) (rk_high s) of
             None \<Rightarrow> Inl (IndexError ''index 0 is out of bounds for axis 0 with size 0'')
           | Some i \<Rightarrow>
               (case map_of (rk_reconVK s) (c_K (rk_MEC_table s ! i)) of
                  None \<Rightarrow> Inl (NameError ''reconVK is not defined'')
                | Some reconV2 \<Rightarrow> Inr (c_K (rk_MEC_table s ! i), reconV2, s))))"


section \<open>Post-processing and output\<close>

text \<open>
  \<^verbatim>\<open>np.argsort\<close> and \<^verbatim>\<open>np.linalg.matrix_rank\<close> are parameters \<open>argsort\<close> and
  \<open>matrix_rank\<close> of the model.

  \<^verbatim>\<open>
  for i in range(m):
      fre_count.append((index == i).sum())
  viralseq_fre = fre_count / sum(fre_count)
  \<close>
\<close>

definition fre_count_of :: "nat list \<Rightarrow> nat \<Rightarrow> nat list" where
  "fre_count_of index m = map (\<lambda>i. length (filter (\<lambda>a. a = i) index)) [0..<m]"

definition viralseq_fre_of :: "nat list \<Rightarrow> real list" where
  "viralseq_fre_of fre_count = map (\<lambda>c. real c / real (sum_list fre_count)) fre_count"

text \<open>\<^verbatim>\<open>(a - b != 0).sum() == 0\<close> for two rows.\<close>

definition rows_equal :: "int list \<Rightarrow> int list \<Rightarrow> bool" where
  "rows_equal a b = (length (filter (\<lambda>(x, y). x - y \<noteq> 0) (zip a b)) = 0)"

text \<open>
  \<^verbatim>\<open>
  for i in range(m):
      tem = 0
      for j in range(len(V_deletion)):
          if (V_deletion_new[i, :] - V_deletion[j, :] != 0).sum() == 0:
              tem += viralseq_fre[j]
      viralseq_fre_new.append(tem)
  \<close>
\<close>

definition viralseq_fre_new_of :: "imatrix \<Rightarrow> imatrix \<Rightarrow> real list \<Rightarrow> nat \<Rightarrow> real list" where
  "viralseq_fre_new_of V_deletion_new V_deletion viralseq_fre m =
     map (\<lambda>i. foldl (\<lambda>tem j. if rows_equal (V_deletion_new ! i) (V_deletion ! j)
                              then tem + viralseq_fre ! j else tem)
                 0 [0..<length V_deletion]) [0..<m]"

text \<open>
  \<^verbatim>\<open>Recon_Quasi[i, SNVpos] = V_deletion_new[i, :]\<close>: the values go to the positions
  of \<^verbatim>\<open>SNVpos\<close>, in order; a position outside the row raises.
\<close>

definition set_positions :: "int list \<Rightarrow> int list \<Rightarrow> int list \<Rightarrow> error + int list" where
  "set_positions row SNVpos vals =
     foldl (\<lambda>acc pv.
        case acc of
          Inl e \<Rightarrow> Inl e
        | Inr r \<Rightarrow>
            (case py_index (fst pv) (length r) of
               Inl e \<Rightarrow> Inl e
             | Inr k \<Rightarrow> Inr (r[k := snd pv]))) (Inr row) (zip SNVpos vals)"

text \<open>
  The sequence of a strain:
  \<^verbatim>\<open>
  for j in range(len(Recon_Quasi[i, :])):
      if j + 1 > Glen and Recon_Quasi[i, j] == 0:
          break
      if Recon_Quasi[i, j] == 1:
          seq += "A"
      elif Recon_Quasi[i, j] == 2:
          seq += "C"
      elif Recon_Quasi[i, j] == 3:
          seq += "G"
      elif Recon_Quasi[i, j] == 4:
          seq += "T"
      elif Recon_Quasi[i, j] == 0:
          seq += "*"
  \<close>
\<close>

fun render :: "nat \<Rightarrow> nat \<Rightarrow> int list \<Rightarrow> string" where
  "render Glen j [] = []"
| "render Glen j (x # xs) =
     (if j + 1 > Glen \<and> x = 0 then []
      else (if x = 1 then ''A'' else if x = 2 then ''C'' else if x = 3 then ''G''
            else if x = 4 then ''T'' else if x = 0 then ''*'' else []) @
           render Glen (j + 1) xs)"

text \<open>
  The dictionary \<^verbatim>\<open>Hashtable\<close>, as the list of its items in insertion order:
  \<^verbatim>\<open>
  if Quasi[i] not in Hashtable:
      Hashtable[Quasi[i]] = viralseq_fre[i]
  else:
      Hashtable[Quasi[i]] += viralseq_fre[i]
  \<close>
\<close>

definition hash_add :: "(string \<times> real) list \<Rightarrow> string \<times> real \<Rightarrow> (string \<times> real) list" where
  "hash_add tbl kv =
     (case map_of tbl (fst kv) of
        None \<Rightarrow> tbl @ [kv]
      | Some v \<Rightarrow> map (\<lambda>(k, x). if k = fst kv then (k, x + snd kv) else (k, x)) tbl)"

text \<open>
  The haplotypes kept by the rank truncation:
  \<^verbatim>\<open>
  viralfre_index = np.argsort(viralseq_fre)
  viralfre_index = viralfre_index[::-1]
  m = np.linalg.matrix_rank(V_deletion)
  V_deletion_new = V_deletion[viralfre_index[:m]]
  \<close>
\<close>

definition V_deletion_new_of ::
  "(real list \<Rightarrow> nat list) \<Rightarrow> (imatrix \<Rightarrow> nat) \<Rightarrow> imatrix \<Rightarrow> real list \<Rightarrow> imatrix" where
  "V_deletion_new_of argsort matrix_rank V_deletion viralseq_fre =
     map (\<lambda>k. V_deletion ! k) (take (matrix_rank V_deletion) (rev (argsort viralseq_fre)))"

text \<open>
  The strains and frequencies written to the FASTA file, in order, from the read
  matrix, the haplotypes \<^verbatim>\<open>reconV2\<close> of the chosen rank, the homogeneous sequence
  and the SNV positions.
\<close>

definition postprocess ::
  "(real list \<Rightarrow> nat list) \<Rightarrow> (imatrix \<Rightarrow> nat) \<Rightarrow> imatrix \<Rightarrow> imatrix \<Rightarrow> nat \<Rightarrow> int list \<Rightarrow> int list \<Rightarrow>
   error + (string \<times> real) list" where
  "postprocess argsort matrix_rank SNVmatrix reconV2 hap_len Homoseq SNVpos =
     (case argmax_axis1 (iden_table SNVmatrix reconV2) of
        Inl e \<Rightarrow> Inl e
      | Inr index \<Rightarrow>
          let V_deletion = deletion_vote hap_len SNVmatrix index (length reconV2);
              viralseq_fre = viralseq_fre_of (fre_count_of index (length reconV2));
              m = matrix_rank V_deletion;
              V_deletion_new = V_deletion_new_of argsort matrix_rank V_deletion viralseq_fre
          in if m > length V_deletion_new
             then Inl (IndexError ''index is out of bounds for axis 0'')
             else
               let viralseq_fre_new = viralseq_fre_new_of V_deletion_new V_deletion viralseq_fre m;
                   Recon_Quasi = map (\<lambda>i. set_positions Homoseq SNVpos (V_deletion_new ! i)) [0..<m]
               in if list_ex isl Recon_Quasi
                  then Inl (IndexError ''index is out of bounds for axis 1'')
                  else
                    let Quasi = map (\<lambda>r. render (length Homoseq) 0 (projr r)) Recon_Quasi;
                        Hashtable = foldl hash_add [] (zip Quasi viralseq_fre_new);
                        Value = map snd Hashtable;
                        index = rev (argsort Value)
                    in Inr (map (\<lambda>i. Hashtable ! i) index))"


section \<open>Properties of the nucleotide statistics\<close>

lemma length_eq_sum_axis0: "length (eq_sum_axis0 a v) = shape a ! 1"
  by (simp add: eq_sum_axis0_def)

lemma length_filter_upt_card: "length (filter P [0..<n]) = card {i. i < n \<and> P i}"
proof -
  have "distinct (filter P [0..<n])" by simp
  then have "card (set (filter P [0..<n])) = length (filter P [0..<n])"
    by (rule distinct_card)
  moreover have "set (filter P [0..<n]) = {i. i < n \<and> P i}" by auto
  ultimately show ?thesis by simp
qed

lemma nth_eq_sum_axis0:
  "j < shape a ! 1 \<Longrightarrow>
   eq_sum_axis0 a v ! j = int (card {i. i < shape a ! 0 \<and> at2 a i j = v})"
  by (simp add: eq_sum_axis0_def length_filter_upt_card)

lemma ACGT_count_rows:
  assumes "ndim M = 2"
  shows "ACGT_count M =
     Inr (map (\<lambda>j. map (\<lambda>c. eq_sum_axis0 M (int c + 1) ! j) [0, 1, 2, 3]) [0..<shape M ! 1])"
proof -
  let ?L = "shape M ! 1"
  have "foldl (\<lambda>out i. set_col out i (eq_sum_axis0 M (int i + 1)))
          (replicate ?L (replicate 4 0)) [0, 1, 2, 3] =
        map (\<lambda>j. map (\<lambda>c. eq_sum_axis0 M (int c + 1) ! j) [0, 1, 2, 3]) [0..<?L]"
    by (rule nth_equalityI)
       (simp_all add: set_col_def length_eq_sum_axis0 numeral_eq_Suc)
  then show ?thesis using assms by (simp add: ACGT_count_def Let_def)
qed

lemma count_partition:
  fixes f :: "nat \<Rightarrow> int"
  assumes "\<forall>i<n. 0 \<le> f i \<and> f i \<le> 4"
  shows "length (filter (\<lambda>i. f i = 1) [0..<n]) + length (filter (\<lambda>i. f i = 2) [0..<n]) +
         length (filter (\<lambda>i. f i = 3) [0..<n]) + length (filter (\<lambda>i. f i = 4) [0..<n]) =
         length (filter (\<lambda>i. f i \<noteq> 0) [0..<n])"
  using assms
proof (induction n)
  case 0
  then show ?case by simp
next
  case (Suc n)
  then have range: "0 \<le> f n \<and> f n \<le> 4" and IH: "\<forall>i<n. 0 \<le> f i \<and> f i \<le> 4"
    by simp_all
  from range have "f n = 0 \<or> f n = 1 \<or> f n = 2 \<or> f n = 3 \<or> f n = 4" by arith
  with Suc.IH [OF IH] show ?case by auto
qed

lemma at2_in_range:
  assumes "shape M = [n, L]" "snv_entries M" "wf_ndarray M" "i < n" "j < L"
  shows "0 \<le> at2 M i j \<and> at2 M i j \<le> 4"
proof -
  have "i * L + j < Suc i * L" using assms(5) by simp
  also have "\<dots> \<le> n * L" using assms(4) by (intro mult_le_mono1) simp
  finally have "i * L + j < length (items M)"
    using assms(1,3) by (simp add: wf_ndarray_def)
  then have "items M ! (i * L + j) \<in> set (items M)" by simp
  then show ?thesis
    using assms(1,2) by (auto simp: snv_entries_def list_all_iff at2_def)
qed

text \<open>
  C8. For a 2-D array \<open>M\<close> of shape \<open>(n, L)\<close> with entries in \<open>{0..4}\<close>, \<open>ACGT_count\<close>
  returns \<open>L\<close> rows of 4 non-negative counts; entry \<open>(j, c)\<close> is the number of reads
  \<open>i\<close> with \<open>M[i, j] = c + 1\<close>, and row \<open>j\<close> sums to the number of reads with a non-gap
  at position \<open>j\<close> (so a gap is counted in no column).
\<close>

theorem ACGT_count_counts:
  assumes "shape M = [n, L]" "snv_entries M" "wf_ndarray M"
  shows "\<exists>out. ACGT_count M = Inr out \<and> length out = L \<and>
     (\<forall>j<L. length (out ! j) = 4 \<and>
        (\<forall>c<4. out ! j ! c = int (card {i. i < n \<and> at2 M i j = int c + 1}) \<and> 0 \<le> out ! j ! c) \<and>
        sum_list (out ! j) = int (card {i. i < n \<and> at2 M i j \<noteq> 0}))"
proof -
  let ?out = "map (\<lambda>j. map (\<lambda>c. eq_sum_axis0 M (int c + 1) ! j) [0, 1, 2, 3]) [0..<L]"
  have nd: "ndim M = 2" using assms(1) by (simp add: ndim_def)
  have out: "ACGT_count M = Inr ?out"
    using ACGT_count_rows [OF nd] assms(1) by simp
  have entry: "?out ! j ! c = int (card {i. i < n \<and> at2 M i j = int c + 1})"
    if "j < L" "c < 4" for j c
  proof -
    from that(2) have "c = 0 \<or> c = 1 \<or> c = 2 \<or> c = 3" by arith
    then show ?thesis
      using that(1) assms(1) by (auto simp: nth_eq_sum_axis0)
  qed
  have rowsum: "sum_list (?out ! j) = int (card {i. i < n \<and> at2 M i j \<noteq> 0})" if "j < L" for j
  proof -
    have "\<forall>i<n. 0 \<le> at2 M i j \<and> at2 M i j \<le> 4"
      using at2_in_range [OF assms] that by simp
    from count_partition [OF this] show ?thesis
      using that assms(1)
      by (simp add: nth_eq_sum_axis0 length_filter_upt_card [symmetric])
  qed
  have "length ?out = L" by simp
  moreover have "\<forall>j<L. length (?out ! j) = 4" by simp
  ultimately show ?thesis using out entry rowsum by (intro exI [of _ ?out]) simp
qed

theorem ACGT_count_counts_witness:
  "shape (NDArray [2, 2] [1, 0, 1, 4]) = [2, 2] \<and> snv_entries (NDArray [2, 2] [1, 0, 1, 4]) \<and>
   wf_ndarray (NDArray [2, 2] [1, 0, 1, 4]) \<and>
   ACGT_count (NDArray [2, 2] [1, 0, 1, 4]) = Inr [[2, 0, 0, 0], [0, 0, 0, 1]]"
proof -
  let ?M = "NDArray [2, 2] [1, 0, 1, 4]"
  have h: "shape ?M = [2, 2]" "snv_entries ?M" "wf_ndarray ?M"
    by (simp_all add: snv_entries_def wf_ndarray_def)
  from ACGT_count_counts [OF h] obtain out where "ACGT_count ?M = Inr out" by blast
  moreover have "ACGT_count ?M = Inr [[2, 0, 0, 0], [0, 0, 0, 1]]"
    by code_simp
  ultimately show ?thesis using h by simp
qed

text \<open>
  C9. \<open>ACGT_count\<close> raises (the \<open>ValueError\<close> of its dimension check) exactly on the
  inputs that are not 2-dimensional, and returns a result on every 2-dimensional one.
\<close>

theorem ACGT_count_raises_iff:
  "(ACGT_count M = Inl (ValueError ''arr should be 2D'') \<longleftrightarrow> ndim M \<noteq> 2) \<and>
   ((\<exists>e. ACGT_count M = Inl e) \<longleftrightarrow> ndim M \<noteq> 2) \<and>
   ((\<exists>out. ACGT_count M = Inr out) \<longleftrightarrow> ndim M = 2)"
  by (auto simp: ACGT_count_def Let_def)

theorem ACGT_count_raises_iff_witness:
  "ndim (NDArray [9] [1, 2, 3, 4, 1, 2, 3, 4, 1]) \<noteq> 2 \<and>
   ACGT_count (NDArray [9] [1, 2, 3, 4, 1, 2, 3, 4, 1]) = Inl (ValueError ''arr should be 2D'')"
  using ACGT_count_raises_iff [of "NDArray [9] [1, 2, 3, 4, 1, 2, 3, 4, 1]"]
  by (simp add: ndim_def)

section \<open>Properties of argmax and of the tensor encoding\<close>

lemma max_list_Max: "xs \<noteq> [] \<Longrightarrow> max_list xs = Max (set xs)"
  by (cases xs) (simp_all add: max_list_def Max.set_eq_fold [symmetric])

lemma min_list_Min: "xs \<noteq> [] \<Longrightarrow> min_list xs = Min (set xs)"
  by (cases xs) (simp_all add: min_list_def Min.set_eq_fold [symmetric])

lemma length_takeWhile_less_ex:
  "\<exists>x\<in>set xs. \<not> P x \<Longrightarrow> length (takeWhile P xs) < length xs"
  by (induction xs) auto

lemma argmax_less:
  assumes "xs \<noteq> []"
  shows "argmax xs < length xs"
proof -
  have "Max (set xs) \<in> set xs" using assms by simp
  then have "\<exists>x\<in>set xs. \<not> x \<noteq> max_list xs" using assms by (simp add: max_list_Max)
  then show ?thesis unfolding argmax_def by (rule length_takeWhile_less_ex)
qed

lemma nth_argmax:
  assumes "xs \<noteq> []"
  shows "xs ! argmax xs = max_list xs"
  using nth_length_takeWhile [of "\<lambda>x. x \<noteq> max_list xs" xs] argmax_less [OF assms]
  by (simp add: argmax_def)

lemma argmax_greatest:
  assumes "xs \<noteq> []" "j < length xs"
  shows "xs ! j \<le> xs ! argmax xs"
  using assms by (simp add: nth_argmax max_list_Max)

lemma argmax_first:
  assumes "xs \<noteq> []" "j < argmax xs"
  shows "xs ! j < xs ! argmax xs"
proof -
  have j: "j < length (takeWhile (\<lambda>x. x \<noteq> max_list xs) xs)"
    using assms(2) by (simp add: argmax_def)
  then have "takeWhile (\<lambda>x. x \<noteq> max_list xs) xs ! j \<in> set (takeWhile (\<lambda>x. x \<noteq> max_list xs) xs)"
    by simp
  then have "xs ! j \<noteq> max_list xs"
    using j by (auto simp: takeWhile_nth dest: set_takeWhileD)
  moreover have "j < length xs" using assms argmax_less [OF assms(1)] by simp
  ultimately show ?thesis
    using argmax_greatest [OF assms(1), of j] by (simp add: nth_argmax [OF assms(1)])
qed

lemma concat_uniform_nth:
  assumes "list_all (\<lambda>row. length row = L) rows" "i < length rows" "j < L"
  shows "concat rows ! (i * L + j) = rows ! i ! j"
  using assms
proof (induction rows arbitrary: i)
  case Nil
  then show ?case by simp
next
  case (Cons row rows)
  show ?case
  proof (cases i)
    case 0
    then show ?thesis using Cons.prems by (simp add: nth_append)
  next
    case (Suc k)
    then show ?thesis using Cons.prems Cons.IH [of k] by (simp add: nth_append)
  qed
qed

lemma length_tensor_encode: "length (tensor_encode M) = length M"
  by (simp add: tensor_encode_def concatenate_axis1_def eq_double_def)

lemma tensor_encode_row:
  assumes "i < length M"
  shows "tensor_encode M ! i =
     map (\<lambda>x. if x = 1 then 1 else 0) (M ! i) @ map (\<lambda>x. if x = 2 then 1 else 0) (M ! i) @
     map (\<lambda>x. if x = 3 then 1 else 0) (M ! i) @ map (\<lambda>x. if x = 4 then 1 else 0) (M ! i)"
  using assms by (simp add: tensor_encode_def concatenate_axis1_def eq_double_def)

lemma four_blocks_nth:
  assumes "length row = L" "l < L" "g < 4"
  shows "(map f0 row @ map f1 row @ map f2 row @ map f3 row) ! (l + L * g) =
         ([f0, f1, f2, f3] ! g) (row ! l)"
proof -
  from assms(3) have "g = 0 \<or> g = 1 \<or> g = 2 \<or> g = 3" by arith
  then show ?thesis using assms(1,2) by (auto simp: nth_append)
qed

lemma reshape_F_index:
  fixes r R l L g :: nat
  assumes "r < R"
  shows "(r + R * l + R * L * g) mod R = r" "(r + R * l + R * L * g) div R = l + L * g"
proof -
  have eq: "r + R * l + R * L * g = r + R * (l + L * g)"
    by (simp add: distrib_left mult.assoc)
  show "(r + R * l + R * L * g) mod R = r" unfolding eq using assms by simp
  show "(r + R * l + R * L * g) div R = l + L * g" unfolding eq using assms by simp
qed

lemma argmax_indicator:
  fixes x :: int
  shows "int (argmax [if x = 1 then 1 else 0, if x = 2 then 1 else 0,
                      if x = 3 then 1 else 0, if x = 4 then (1::real) else 0]) + 1 =
         (if 1 \<le> x \<and> x \<le> 4 then x else 1)"
proof -
  consider "x = 1" | "x = 2" | "x = 3" | "x = 4" | "x < 1" | "4 < x" by arith
  then show ?thesis
    by cases (simp_all add: argmax_def max_list_def)
qed

lemma tensor_decode_encode_entry:
  assumes "wf_matrix L M" "i < length M" "j < L"
  shows "tensor_decode (length M) L (tensor_encode M) ! i ! j =
         (if 1 \<le> M ! i ! j \<and> M ! i ! j \<le> 4 then M ! i ! j else 1)"
proof -
  have len: "length (M ! i) = L"
    using assms(1,2) by (simp add: wf_matrix_def list_all_length)
  have "tensor_decode (length M) L (tensor_encode M) ! i ! j =
        int (argmax (map (\<lambda>g. tensor_encode M ! i ! (j + L * g)) [0..<4])) + 1"
    using assms(2,3)
    by (simp add: tensor_decode_def reshape_F_def Let_def reshape_F_index del: upt_Suc)
  also have "map (\<lambda>g. tensor_encode M ! i ! (j + L * g)) [0..<4] =
        map (\<lambda>g. ([\<lambda>x. if x = 1 then 1 else 0, \<lambda>x. if x = 2 then 1 else 0,
                   \<lambda>x. if x = 3 then 1 else 0, \<lambda>x. if x = 4 then (1::real) else 0] ! g) (M ! i ! j))
          [0..<4]"
  proof (rule map_cong [OF refl])
    fix g assume "g \<in> set [0..<4]"
    then have "g < 4" by simp
    from four_blocks_nth [OF len assms(3) this]
    show "tensor_encode M ! i ! (j + L * g) =
          ([\<lambda>x. if x = 1 then 1 else 0, \<lambda>x. if x = 2 then 1 else 0,
            \<lambda>x. if x = 3 then 1 else 0, \<lambda>x. if x = 4 then (1::real) else 0] ! g) (M ! i ! j)"
      by (simp add: tensor_encode_row [OF assms(2)])
  qed
  also have "\<dots> = [if M ! i ! j = 1 then 1 else 0, if M ! i ! j = 2 then 1 else 0,
                   if M ! i ! j = 3 then 1 else 0, if M ! i ! j = 4 then 1 else 0]"
    by (simp add: upt_rec)
  finally show ?thesis by (simp only: argmax_indicator)
qed

text \<open>
  C4. Encoding a haplotype matrix \<open>V\<close> (entries in \<open>{1..4}\<close>) as four one-hot blocks and
  decoding it (column-major reshape to \<open>(R, L, 4)\<close>, argmax over the last axis, plus 1)
  gives \<open>V\<close> back; on a read matrix \<open>S\<close> (entries in \<open>{0..4}\<close>) the decoded matrix agrees
  with \<open>S\<close> at every position where \<open>S\<close> is not a gap.
\<close>

theorem tensor_round_trip:
  "(hap_matrix L V \<longrightarrow> tensor_decode (length V) L (tensor_encode V) = V) \<and>
   (snv_matrix L S \<and> i < length S \<and> j < L \<and> S ! i ! j \<noteq> 0 \<longrightarrow>
      tensor_decode (length S) L (tensor_encode S) ! i ! j = S ! i ! j)"
proof (intro conjI impI)
  assume V: "hap_matrix L V"
  then have wf: "wf_matrix L V" by (simp add: hap_matrix_def)
  have rng: "1 \<le> V ! i ! j \<and> V ! i ! j \<le> 4" if "i < length V" "j < L" for i j
  proof -
    have "length (V ! i) = L" using wf that(1) by (simp add: wf_matrix_def list_all_length)
    then show ?thesis
      using V that by (simp add: hap_matrix_def list_all_length)
  qed
  show "tensor_decode (length V) L (tensor_encode V) = V"
  proof (rule nth_equalityI)
    show "length (tensor_decode (length V) L (tensor_encode V)) = length V"
      by (simp add: tensor_decode_def reshape_F_def)
  next
    fix i assume "i < length (tensor_decode (length V) L (tensor_encode V))"
    then have i: "i < length V" by (simp add: tensor_decode_def reshape_F_def)
    have len: "length (V ! i) = L" using wf i by (simp add: wf_matrix_def list_all_length)
    show "tensor_decode (length V) L (tensor_encode V) ! i = V ! i"
    proof (rule nth_equalityI)
      show "length (tensor_decode (length V) L (tensor_encode V) ! i) = length (V ! i)"
        using i len by (simp add: tensor_decode_def reshape_F_def)
    next
      fix j assume "j < length (tensor_decode (length V) L (tensor_encode V) ! i)"
      then have j: "j < L" using i by (simp add: tensor_decode_def reshape_F_def)
      show "tensor_decode (length V) L (tensor_encode V) ! i ! j = V ! i ! j"
        using tensor_decode_encode_entry [OF wf i j] rng [OF i j] by simp
    qed
  qed
next
  assume S: "snv_matrix L S \<and> i < length S \<and> j < L \<and> S ! i ! j \<noteq> 0"
  then have wf: "wf_matrix L S" and i: "i < length S" and j: "j < L"
    by (simp_all add: snv_matrix_def)
  have "length (S ! i) = L" using wf i by (simp add: wf_matrix_def list_all_length)
  then have "0 \<le> S ! i ! j \<and> S ! i ! j \<le> 4"
    using S by (simp add: snv_matrix_def list_all_length)
  with S have "1 \<le> S ! i ! j \<and> S ! i ! j \<le> 4" by arith
  then show "tensor_decode (length S) L (tensor_encode S) ! i ! j = S ! i ! j"
    using tensor_decode_encode_entry [OF wf i j] by simp
qed

theorem tensor_round_trip_witness:
  "hap_matrix 2 [[1, 4], [3, 2]] \<and>
   tensor_decode (length [[1, 4], [3, 2::int]]) 2 (tensor_encode [[1, 4], [3, 2]]) = [[1, 4], [3, 2]] \<and>
   snv_matrix 2 [[0, 2], [3, 0]] \<and> (1::nat) < 2 \<and> [[0, 2], [3, 0]] ! 1 ! 0 \<noteq> (0::int) \<and>
   tensor_decode (length [[0, 2], [3, 0::int]]) 2 (tensor_encode [[0, 2], [3, 0]]) ! 1 ! 0 = 3 \<and>
   tensor_encode [[0, 2], [3, 0]] = [[0, 0, 0, 1, 0, 0, 0, 0], [0, 0, 0, 0, 1, 0, 0, 0]]"
proof -
  have h1: "hap_matrix 2 [[1, 4], [3, 2]]"
    by (simp add: hap_matrix_def wf_matrix_def)
  have h2: "snv_matrix 2 [[0, 2], [3, 0]]"
    by (simp add: snv_matrix_def wf_matrix_def)
  have enc: "tensor_encode [[0, 2], [3, 0]] = [[0, 0, 0, 1, 0, 0, 0, 0], [0, 0, 0, 0, 1, 0, 0, 0]]"
    by (simp add: tensor_encode_def concatenate_axis1_def eq_double_def upt_rec)
  show ?thesis
    using tensor_round_trip [of 2 "[[1, 4], [3, 2]]" "[[0, 2], [3, 0]]" 1 0] h1 h2 enc
    by simp
qed


section \<open>Properties of the script's counts\<close>

lemma ndim_arr2: "ndim (arr2 L rows) = 2"
  by (simp add: ndim_def arr2_def)

lemma counts_eq: "ACGT_count (arr2 L rows) = Inr (counts L rows)"
  using ACGT_count_rows [OF ndim_arr2, of L rows] by (simp add: counts_def)

lemma at2_arr2:
  assumes "wf_matrix L rows" "i < length rows" "j < L"
  shows "at2 (arr2 L rows) i j = rows ! i ! j"
  using concat_uniform_nth [of L rows i j] assms
  by (simp add: at2_def arr2_def wf_matrix_def)

lemma length_filter_nth:
  "length (filter (\<lambda>i. P (xs ! i)) [0..<length xs]) = length (filter P xs)"
proof -
  have "length (filter P (map (\<lambda>i. xs ! i) [0..<length xs])) =
        length (filter (\<lambda>i. P (xs ! i)) [0..<length xs])"
    by (simp add: filter_map comp_def)
  then show ?thesis by (simp add: map_nth)
qed

lemma eq_sum_axis0_arr2:
  assumes "wf_matrix L rows" "j < L"
  shows "eq_sum_axis0 (arr2 L rows) v ! j = int (length (filter (\<lambda>r. r ! j = v) rows))"
proof -
  have "filter (\<lambda>i. at2 (arr2 L rows) i j = v) [0..<length rows] =
        filter (\<lambda>i. rows ! i ! j = v) [0..<length rows]"
    using assms by (intro filter_cong refl) (simp add: at2_arr2)
  moreover have "length (filter (\<lambda>i. (\<lambda>r. r ! j = v) (rows ! i)) [0..<length rows]) =
        length (filter (\<lambda>r. r ! j = v) rows)"
    by (rule length_filter_nth)
  ultimately show ?thesis
    using assms(2) by (simp add: eq_sum_axis0_def arr2_def)
qed

lemma counts_rows:
  "counts L rows =
     map (\<lambda>j. map (\<lambda>c. eq_sum_axis0 (arr2 L rows) (int c + 1) ! j) [0, 1, 2, 3]) [0..<L]"
  using ACGT_count_rows [OF ndim_arr2, of L rows] by (simp add: counts_def arr2_def)

lemma length_counts: "length (counts L rows) = L"
  by (simp add: counts_rows)

lemma length_counts_row: "j < L \<Longrightarrow> length (counts L rows ! j) = 4"
  by (simp add: counts_rows)

lemma counts_row:
  assumes "wf_matrix L rows" "j < L"
  shows "counts L rows ! j =
     [int (length (filter (\<lambda>r. r ! j = 1) rows)), int (length (filter (\<lambda>r. r ! j = 2) rows)),
      int (length (filter (\<lambda>r. r ! j = 3) rows)), int (length (filter (\<lambda>r. r ! j = 4) rows))]"
  using assms by (simp add: counts_rows eq_sum_axis0_arr2)

lemma counts_nth:
  assumes "wf_matrix L rows" "j < L" "c < 4"
  shows "counts L rows ! j ! c = int (length (filter (\<lambda>r. r ! j = int c + 1) rows))"
proof -
  from assms(3) have "c = 0 \<or> c = 1 \<or> c = 2 \<or> c = 3" by arith
  then show ?thesis using assms(1,2) by (auto simp: counts_row)
qed

lemma row_count_partition:
  fixes rows :: imatrix
  assumes "list_all (\<lambda>r. 0 \<le> r ! j \<and> r ! j \<le> 4) rows"
  shows "length (filter (\<lambda>r. r ! j = 1) rows) + length (filter (\<lambda>r. r ! j = 2) rows) +
         length (filter (\<lambda>r. r ! j = 3) rows) + length (filter (\<lambda>r. r ! j = 4) rows) =
         length (filter (\<lambda>r. r ! j \<noteq> 0) rows)"
  using assms
proof (induction rows)
  case Nil
  then show ?case by simp
next
  case (Cons r rows)
  then have "r ! j = 0 \<or> r ! j = 1 \<or> r ! j = 2 \<or> r ! j = 3 \<or> r ! j = 4" by simp arith
  with Cons show ?case by auto
qed

lemma snv_matrix_column:
  assumes "snv_matrix L rows" "j < L"
  shows "list_all (\<lambda>r. 0 \<le> r ! j \<and> r ! j \<le> 4) rows"
  using assms by (auto simp: snv_matrix_def wf_matrix_def list_all_iff)

lemma counts_sum:
  assumes "snv_matrix L rows" "j < L"
  shows "sum_list (counts L rows ! j) = int (length (filter (\<lambda>r. r ! j \<noteq> 0) rows))"
proof -
  have wf: "wf_matrix L rows" using assms(1) by (simp add: snv_matrix_def)
  from row_count_partition [OF snv_matrix_column [OF assms]] show ?thesis
    by (simp add: counts_row [OF wf assms(2)])
qed

section \<open>Read selection\<close>

lemma length_filter_card: "length (filter P xs) = card {j. j < length xs \<and> P (xs ! j)}"
  using length_filter_nth [of P xs] by (simp add: length_filter_upt_card)

lemma length_filter_zip_card:
  assumes "length xs = L" "length ys = L"
  shows "length (filter P (zip xs ys)) = card {j. j < L \<and> P (xs ! j, ys ! j)}"
  using length_filter_card [of P "zip xs ys"] assms
  by (simp cong: conj_cong)

lemma HD_row_spec:
  assumes "length row = L" "length V_flag = L"
  shows "HD_row V_flag row =
     (int (card {j. j < L \<and> row ! j = V_flag ! j}),
      int (card {j. j < L \<and> row ! j \<noteq> 0}),
      int (card {j. j < L \<and> row ! j \<noteq> 0}) - int (card {j. j < L \<and> row ! j = V_flag ! j}))"
  using assms
  by (simp add: HD_row_def Let_def length_filter_zip_card [of row L V_flag]
      length_filter_card [of _ row])

lemma foldl_mult_prod_list:
  fixes a :: real
  shows "foldl (\<lambda>pr j. pr * f j) a xs = a * prod_list (map f xs)"
  by (induction xs arbitrary: a) (simp_all add: mult.assoc)

lemma pr_variant_prod:
  assumes "length row = L"
  shows "pr_variant_of A row =
     (\<Prod>j\<in>{j. j < L \<and> row ! j \<noteq> 0}.
        real_of_int (A ! j ! nat (row ! j - 1)) / real_of_int (sum_list (A ! j)))"
proof -
  let ?pos = "filter (\<lambda>j. row ! j \<noteq> 0) [0..<length row]"
  let ?f = "\<lambda>j. real_of_int (A ! j ! nat (row ! j - 1)) / real_of_int (sum_list (A ! j))"
  have "distinct ?pos" by simp
  then have "prod ?f (set ?pos) = prod_list (map ?f ?pos)"
    by (rule prod.distinct_set_conv_list)
  moreover have "set ?pos = {j. j < L \<and> row ! j \<noteq> 0}" using assms by auto
  moreover have "pr_variant_of A row = foldl (\<lambda>pr j. pr * ?f j) 1 ?pos"
    by (simp add: pr_variant_of_def Let_def)
  moreover have "foldl (\<lambda>pr j. pr * ?f j) 1 ?pos = 1 * prod_list (map ?f ?pos)"
    by (rule foldl_mult_prod_list)
  ultimately show ?thesis by simp
qed

text \<open>
  C2. Read \<open>i\<close> of the active matrix is selected exactly when its Hamming distance to
  the dominant haplotype is 0, or is at most \<open>mis_cri[i]\<close> with \<open>pr_seq > pr_variant\<close>,
  where \<open>pr_variant\<close> is the product over the read's non-gap positions of
  \<open>ACGTcount[j, M[i,j] - 1] / sum(ACGTcount[j])\<close> for the counts of the active matrix and
  \<open>pr_seq\<close> is the binomial pmf at the Hamming distance; a read whose Hamming distance
  exceeds its (non-negative) \<open>mis_cri[i]\<close> is not selected.
\<close>

theorem select_reads_iff:
  assumes "wf_matrix L M_E" "length V_flag = L" "i < length M_E"
  shows
    "(let nongap = int (card {j. j < L \<and> M_E ! i ! j \<noteq> 0});
          hd_i = nongap - int (card {j. j < L \<and> M_E ! i ! j = V_flag ! j});
          pr_variant = (\<Prod>j\<in>{j. j < L \<and> M_E ! i ! j \<noteq> 0}.
             real_of_int (counts L M_E ! j ! nat (M_E ! i ! j - 1)) /
             real_of_int (sum_list (counts L M_E ! j)));
          pr_seq = binom_pmf hd_i nongap seq_err;
          selected = (i \<in> set (select_reads binom_pmf seq_err (counts L M_E) M_E mis_cri V_flag))
      in (selected \<longleftrightarrow> hd_i = 0 \<or> (hd_i \<le> mis_cri ! i \<and> pr_seq > pr_variant)) \<and>
         (0 \<le> mis_cri ! i \<and> mis_cri ! i < hd_i \<longrightarrow> \<not> selected))"
proof -
  have len: "length (M_E ! i) = L"
    using assms(1,3) by (simp add: wf_matrix_def list_all_length)
  show ?thesis
    using assms(3)
    by (auto simp: select_reads_def HD_table_def Let_def HD_row_spec [OF len assms(2)]
        pr_variant_prod [OF len])
qed

theorem select_reads_iff_witness:
  "wf_matrix 2 [[1, 1], [1, 2], [2, 2 :: int]] \<and> length [1, 1 :: int] = 2 \<and>
   (1::nat) < length [[1, 1], [1, 2], [2, 2 :: int]] \<and>
   select_reads (\<lambda>k n p. 1 / 2) (1 / 500) (counts 2 [[1, 1], [1, 2], [2, 2]])
     [[1, 1], [1, 2], [2, 2]] [1, 1, 1] [1, 1] = [0, 1] \<and>
   (let nongap = int (card {j. j < 2 \<and> [[1, 1], [1, 2], [2, 2]] ! 1 ! j \<noteq> (0::int)});
        hd_i = nongap - int (card {j. j < 2 \<and> [[1, 1], [1, 2], [2, 2]] ! 1 ! j = [1, 1 :: int] ! j});
        pr_variant = (\<Prod>j\<in>{j. j < 2 \<and> [[1, 1], [1, 2], [2, 2]] ! 1 ! j \<noteq> (0::int)}.
           real_of_int (counts 2 [[1, 1], [1, 2], [2, 2]] ! j ! nat ([[1, 1], [1, 2], [2, 2]] ! 1 ! j - 1)) /
           real_of_int (sum_list (counts 2 [[1, 1], [1, 2], [2, 2]] ! j)));
        pr_seq = 1 / 2
    in hd_i = 0 \<or> (hd_i \<le> [1, 1, 1] ! 1 \<and> pr_seq > pr_variant))"
proof -
  let ?M = "[[1, 1], [1, 2], [2, 2 :: int]]"
  have h: "wf_matrix 2 ?M" "length [1, 1 :: int] = 2" "(1::nat) < length ?M"
    by (simp_all add: wf_matrix_def)
  have c: "counts 2 ?M = [[2, 1, 0, 0], [1, 2, 0, 0]]"
    using h(1) by (simp add: nth_equalityI counts_rows eq_sum_axis0_arr2 upt_rec)
  have sel: "select_reads (\<lambda>k n p. 1 / 2) (1 / 500) (counts 2 ?M) ?M [1, 1, 1] [1, 1] = [0, 1]"
    unfolding c
    by (simp add: select_reads_def HD_table_def HD_row_def pr_variant_of_def Let_def upt_rec)
  then have "1 \<in> set (select_reads (\<lambda>k n p. 1 / 2) (1 / 500) (counts 2 ?M) ?M [1, 1, 1] [1, 1])"
    by simp
  with select_reads_iff [OF h, of "\<lambda>k n p. 1 / 2" "1 / 500" "[1, 1, 1]"] sel h
  show ?thesis by (auto simp: Let_def)
qed


section \<open>Reassignment and MEC\<close>

lemma iden_table_nth:
  assumes "wf_matrix L S" "wf_matrix L V" "i < length S" "h < length V"
  shows "iden_table S V ! i ! h = int (card {j. j < L \<and> S ! i ! j = V ! h ! j})"
proof -
  have "length (S ! i) = L" "length (V ! h) = L"
    using assms by (simp_all add: wf_matrix_def list_all_length)
  from length_filter_zip_card [OF this, of "\<lambda>(a, b). a - b = 0"] show ?thesis
    using assms(3,4) by (simp add: iden_table_def)
qed

lemma argmax_axis1_iden_table:
  assumes "V \<noteq> []"
  shows "argmax_axis1 (iden_table S V) = Inr (map argmax (iden_table S V))"
  using assms by (auto simp: argmax_axis1_def iden_table_def list_ex_iff)

lemma length_filter_concat:
  "length (filter P (concat xss)) = sum_list (map (\<lambda>xs. length (filter P xs)) xss)"
  by (induction xss) simp_all

lemma card_cells:
  fixes N L :: nat
  shows "card {(i, j). i < N \<and> j < L \<and> Q i j} = (\<Sum>i = 0..<N. card {j. j < L \<and> Q i j})"
proof -
  have "{(i, j). i < N \<and> j < L \<and> Q i j} = (SIGMA i:{0..<N}. {j. j < L \<and> Q i j})"
    by auto
  moreover have "card (SIGMA i:{0..<N}. {j. j < L \<and> Q i j}) =
        (\<Sum>i\<in>{0..<N}. card {j. j < L \<and> Q i j})"
    by (rule card_SigmaI) simp_all
  ultimately show ?thesis by simp
qed

lemma MEC_of_card:
  assumes "wf_matrix L S" "length a = length S"
  shows "MEC_of S V a =
     card {(i, j). i < length S \<and> j < L \<and> S ! i ! j \<noteq> 0 \<and> S ! i ! j \<noteq> V ! (a ! i) ! j}"
proof -
  let ?cell = "\<lambda>i j. (S ! i ! j - V ! (a ! i) ! j) * (if S ! i ! j \<noteq> 0 then 1 else S ! i ! j)"
  let ?Q = "\<lambda>i j. S ! i ! j \<noteq> 0 \<and> S ! i ! j \<noteq> V ! (a ! i) ! j"
  have row: "length (filter (\<lambda>x. x \<noteq> 0) (map (?cell i) [0..<length (S ! i)])) =
             card {j. j < L \<and> ?Q i j}" if "i < length S" for i
  proof -
    have len: "length (S ! i) = L"
      using assms(1) that by (simp add: wf_matrix_def list_all_length)
    have "length (filter (\<lambda>x. x \<noteq> 0) (map (?cell i) [0..<L])) =
          length (filter (\<lambda>j. ?cell i j \<noteq> 0) [0..<L])"
      by (simp add: filter_map comp_def)
    also have "\<dots> = card {j. j < L \<and> ?cell i j \<noteq> 0}"
      by (rule length_filter_upt_card)
    also have "{j. j < L \<and> ?cell i j \<noteq> 0} = {j. j < L \<and> ?Q i j}"
      by auto
    finally show ?thesis by (simp add: len)
  qed
  have cells: "map (\<lambda>i. map (\<lambda>j. (S ! i ! j - map (\<lambda>a. V ! a) a ! i ! j) *
                     map (map (\<lambda>x. if x \<noteq> 0 then 1 else x)) S ! i ! j) [0..<length (S ! i)])
                 [0..<length S] =
               map (\<lambda>i. map (?cell i) [0..<length (S ! i)]) [0..<length S]"
  proof (rule map_cong [OF refl], rule map_cong [OF refl])
    fix i j assume "i \<in> set [0..<length S]" "j \<in> set [0..<length (S ! i)]"
    then have i: "i < length S" and j: "j < length (S ! i)" by simp_all
    have "map (\<lambda>a. V ! a) a ! i = V ! (a ! i)" using i assms(2) by simp
    moreover have "map (map (\<lambda>x. if x \<noteq> 0 then 1 else x)) S ! i ! j =
        (if S ! i ! j \<noteq> 0 then 1 else S ! i ! j)"
      using i j by simp
    ultimately show "(S ! i ! j - map (\<lambda>a. V ! a) a ! i ! j) *
          map (map (\<lambda>x. if x \<noteq> 0 then 1 else x)) S ! i ! j = ?cell i j"
      by simp
  qed
  have "MEC_of S V a =
        sum_list (map (\<lambda>i. length (filter (\<lambda>x. x \<noteq> 0) (map (?cell i) [0..<length (S ! i)])))
          [0..<length S])"
    unfolding MEC_of_def Let_def cells
    by (simp only: length_filter_concat map_map comp_def)
  also have "\<dots> = sum_list (map (\<lambda>i. card {j. j < L \<and> ?Q i j}) [0..<length S])"
  proof (rule arg_cong [where f = sum_list], rule map_cong [OF refl])
    fix i assume "i \<in> set [0..<length S]"
    then have "i < length S" by simp
    then show "length (filter (\<lambda>x. x \<noteq> 0) (map (?cell i) [0..<length (S ! i)])) =
               card {j. j < L \<and> ?Q i j}"
      by (rule row)
  qed
  also have "\<dots> = (\<Sum>i = 0..<length S. card {j. j < L \<and> ?Q i j})"
    by (simp add: interv_sum_list_conv_sum_set_nat)
  finally show ?thesis by (simp add: card_cells)
qed

text \<open>
  The MEC of haplotypes \<open>reconV2\<close> (at least one): the number of cells \<open>(i, j)\<close> with
  \<open>S[i, j] \<noteq> 0\<close> and \<open>S[i, j] \<noteq> reconV2[a_i, j]\<close>, where the assignment \<open>a_i\<close> of read
  \<open>i\<close> is a haplotype that maximizes the number of positions equal to the read.
\<close>

lemma mec_score_spec:
  assumes "wf_matrix L S" "wf_matrix L reconV2" "reconV2 \<noteq> []"
  shows "\<exists>a. argmax_axis1 (iden_table S reconV2) = Inr a \<and> length a = length S \<and>
     (\<forall>i<length S. a ! i < length reconV2 \<and>
        (\<forall>h<length reconV2. card {j. j < L \<and> S ! i ! j = reconV2 ! h ! j}
                           \<le> card {j. j < L \<and> S ! i ! j = reconV2 ! (a ! i) ! j})) \<and>
     mec_score S reconV2 =
       Inr (card {(i, j). i < length S \<and> j < L \<and> S ! i ! j \<noteq> 0 \<and> S ! i ! j \<noteq> reconV2 ! (a ! i) ! j})"
proof -
  let ?a = "map argmax (iden_table S reconV2)"
  have a: "argmax_axis1 (iden_table S reconV2) = Inr ?a"
    by (rule argmax_axis1_iden_table [OF assms(3)])
  have len: "length ?a = length S" by (simp add: iden_table_def)
  have best: "?a ! i < length reconV2 \<and>
        (\<forall>h<length reconV2. card {j. j < L \<and> S ! i ! j = reconV2 ! h ! j}
                           \<le> card {j. j < L \<and> S ! i ! j = reconV2 ! (?a ! i) ! j})"
    if i: "i < length S" for i
  proof -
    let ?row = "iden_table S reconV2 ! i"
    have rl: "length ?row = length reconV2" using i by (simp add: iden_table_def)
    then have ne: "?row \<noteq> []" using assms(3) by auto
    have ai: "?a ! i = argmax ?row" using i by (simp add: iden_table_def)
    have lt: "argmax ?row < length reconV2" using argmax_less [OF ne] rl by simp
    have "card {j. j < L \<and> S ! i ! j = reconV2 ! h ! j}
          \<le> card {j. j < L \<and> S ! i ! j = reconV2 ! (argmax ?row) ! j}"
      if h: "h < length reconV2" for h
      using argmax_greatest [OF ne, of h] h rl lt
        iden_table_nth [OF assms(1,2) i h] iden_table_nth [OF assms(1,2) i lt]
      by simp
    then show ?thesis using lt ai by simp
  qed
  have "mec_score S reconV2 =
        Inr (card {(i, j). i < length S \<and> j < L \<and> S ! i ! j \<noteq> 0 \<and> S ! i ! j \<noteq> reconV2 ! (?a ! i) ! j})"
    using MEC_of_card [OF assms(1) len, of reconV2] by (simp add: mec_score_def a)
  with a len best show ?thesis by blast
qed

lemma mec_score_example:
  "wf_matrix 2 [[1, 1], [1, 2], [0, 2 :: int]] \<and> wf_matrix 2 [[1, 1], [2, 2 :: int]] \<and>
   [[1, 1], [2, 2 :: int]] \<noteq> [] \<and>
   argmax_axis1 (iden_table [[1, 1], [1, 2], [0, 2]] [[1, 1], [2, 2]]) = Inr [0, 0, 1] \<and>
   mec_score [[1, 1], [1, 2], [0, 2]] [[1, 1], [2, 2]] = Inr 1 \<and>
   card {(i, j). i < length [[1, 1], [1, 2], [0, 2 :: int]] \<and> j < (2::nat) \<and>
      [[1, 1], [1, 2], [0, 2]] ! i ! j \<noteq> (0::int) \<and>
      [[1, 1], [1, 2], [0, 2 :: int]] ! i ! j \<noteq> [[1, 1], [2, 2]] ! ([0, 0, 1] ! i) ! j} = 1"
proof -
  let ?S = "[[1, 1], [1, 2], [0, 2 :: int]]"
  let ?V = "[[1, 1], [2, 2 :: int]]"
  have h: "wf_matrix 2 ?S" "wf_matrix 2 ?V" "?V \<noteq> []"
    by (simp_all add: wf_matrix_def)
  have a: "argmax_axis1 (iden_table ?S ?V) = Inr [0, 0, 1]"
    by (simp add: argmax_axis1_def iden_table_def argmax_def max_list_def)
  have m: "mec_score ?S ?V = Inr 1"
    by (simp add: mec_score_def a MEC_of_def Let_def upt_rec)
  from mec_score_spec [OF h] a m h show ?thesis
    by auto
qed


section \<open>Majority votes\<close>

lemma fill_uncov_other:
  "j \<noteq> p \<Longrightarrow> fst (fill_uncov rnd A vg p) ! j = fst vg ! j"
  by (simp add: fill_uncov_def Let_def)

lemma foldl_fill_uncov_other:
  "j \<notin> set ps \<Longrightarrow> fst (foldl (fill_uncov rnd A) vg ps) ! j = fst vg ! j"
  by (induction ps arbitrary: vg) (simp_all add: fill_uncov_other)

lemma fill_uncov_snd:
  "snd (fill_uncov rnd A vg p) =
     (if length (where_max (A ! p)) \<noteq> 1 then snd (rnd (snd vg)) else snd vg)"
  by (simp add: fill_uncov_def Let_def)

lemma foldl_fill_uncov_snd:
  "snd (foldl (fill_uncov rnd A) vg ps) =
     ((\<lambda>g. snd (rnd g)) ^^ length (filter (\<lambda>p. length (where_max (A ! p)) \<noteq> 1) ps)) (snd vg)"
proof (induction ps arbitrary: vg)
  case Nil
  then show ?case by simp
next
  case (Cons p ps)
  have "((\<lambda>g. snd (rnd g)) ^^ n) (snd (rnd x)) = snd (rnd (((\<lambda>g. snd (rnd g)) ^^ n) x))"
    for n x
    using funpow_swap1 [of "\<lambda>g. snd (rnd g)" n x] by simp
  then show ?case
    by (simp add: Cons.IH fill_uncov_snd)
qed

lemma foldl_clear_other:
  "j \<notin> set ps \<Longrightarrow> foldl (\<lambda>v p. v[p := (0::int)]) v ps ! j = v ! j"
  by (induction ps arbitrary: v) simp_all

lemma set_select_rows: "set (select_rows M idx i) \<subseteq> set M"
  by (auto simp: select_rows_def dest: set_zip_leftD)

lemma snv_select_rows:
  assumes "snv_matrix L M"
  shows "snv_matrix L (select_rows M idx i)"
  using assms set_select_rows [of M idx i]
  by (auto simp: snv_matrix_def wf_matrix_def list_all_iff)

lemma length_single_sta: "length (single_sta_of L rs) = L"
  by (simp add: single_sta_of_def length_counts)

lemma single_sta_uncovered:
  assumes "snv_matrix L rs" "j < L"
  shows "sum_list (single_sta_of L rs ! j) = 0 \<longleftrightarrow> \<not> covered rs j"
proof (cases "rs = []")
  case True
  then show ?thesis
    using assms(2) by (simp add: single_sta_of_def covered_def sum_list_replicate)
next
  case False
  have "length (filter (\<lambda>r. r ! j \<noteq> 0) rs) = 0 \<longleftrightarrow> \<not> list_ex (\<lambda>r. r ! j \<noteq> 0) rs"
    by (simp add: filter_empty_conv list_ex_iff)
  then show ?thesis
    using False by (simp add: single_sta_of_def covered_def counts_sum [OF assms])
qed

lemma uncov_pos_filter:
  assumes "snv_matrix L rs"
  shows "uncov_pos_of (single_sta_of L rs) = filter (\<lambda>j. \<not> covered rs j) [0..<L]"
  unfolding uncov_pos_of_def length_single_sta
  by (rule filter_cong [OF refl]) (simp add: single_sta_uncovered [OF assms])

lemma covered_single_sta:
  assumes "covered rs j"
  shows "single_sta_of L rs = counts L rs"
proof -
  from assms have "rs \<noteq> []" by (auto simp: covered_def)
  then show ?thesis by (simp add: single_sta_of_def)
qed

lemma vote_row_covered:
  assumes "snv_matrix L rs" "j < L" "covered rs j"
  shows "fst (vote_row rnd A L rs g) ! j = int (argmax (counts L rs ! j)) + 1"
proof -
  have "j \<notin> set (uncov_pos_of (single_sta_of L rs))"
    using assms(3) by (simp add: uncov_pos_filter [OF assms(1)])
  then show ?thesis
    using assms(2)
    by (simp add: vote_row_def Let_def foldl_fill_uncov_other covered_single_sta [OF assms(3)]
        length_counts)
qed

lemma vote_row_snd:
  assumes "snv_matrix L rs"
  shows "snd (vote_row rnd A L rs g) =
     ((\<lambda>g. snd (rnd g)) ^^
        length (filter (\<lambda>p. \<not> covered rs p \<and> length (where_max (A ! p)) \<noteq> 1) [0..<L])) g"
  by (simp add: vote_row_def Let_def foldl_fill_uncov_snd uncov_pos_filter [OF assms]
      conj_commute)

lemma deletion_row_covered:
  assumes "snv_matrix L rs" "j < L" "covered rs j"
  shows "deletion_row L rs ! j = int (argmax (counts L rs ! j)) + 1"
proof -
  have "j \<notin> set (uncov_pos_of (single_sta_of L rs))"
    using assms(3) by (simp add: uncov_pos_filter [OF assms(1)])
  then show ?thesis
    using assms(2)
    by (simp add: deletion_row_def Let_def foldl_clear_other covered_single_sta [OF assms(3)]
        length_counts)
qed

lemma major_vote_Suc:
  "major_vote rnd A L M idx (Suc R) g =
     (fst (major_vote rnd A L M idx R g) @
        [fst (vote_row rnd A L (select_rows M idx R) (snd (major_vote rnd A L M idx R g)))],
      snd (vote_row rnd A L (select_rows M idx R) (snd (major_vote rnd A L M idx R g))))"
  by (simp add: major_vote_def Let_def)

lemma length_major_vote: "length (fst (major_vote rnd A L M idx R g)) = R"
  by (induction R) (simp_all add: major_vote_Suc, simp add: major_vote_def)

lemma major_vote_nth:
  "i < R \<Longrightarrow> fst (major_vote rnd A L M idx R g) ! i =
     fst (vote_row rnd A L (select_rows M idx i) (snd (major_vote rnd A L M idx i g)))"
proof (induction R)
  case 0
  then show ?case by simp
next
  case (Suc R)
  then show ?case
    by (cases "i = R") (simp_all add: major_vote_Suc nth_append length_major_vote)
qed

lemma major_vote_snd:
  assumes "snv_matrix L M"
  shows "snd (major_vote rnd A L M idx R g) =
     ((\<lambda>g. snd (rnd g)) ^^
        sum_list (map (\<lambda>i. length (filter (\<lambda>p. \<not> covered (select_rows M idx i) p \<and>
                                              length (where_max (A ! p)) \<noteq> 1) [0..<L]))
          [0..<R])) g"
proof (induction R)
  case 0
  then show ?case by (simp add: major_vote_def)
next
  case (Suc R)
  show ?case
    by (simp add: major_vote_Suc vote_row_snd [OF snv_select_rows [OF assms]] Suc.IH
        funpow_add add.commute)
qed

text \<open>
  C10. In a majority vote (the V-update and the second vote are \<open>major_vote\<close>, the
  post-processing vote is \<open>deletion_vote\<close>), a position \<open>j\<close> covered by a read assigned
  to haplotype \<open>i\<close> gets the first-occurrence argmax of that haplotype's counts plus 1,
  the smallest nucleotide among those with the greatest count, whatever the random
  source and its state; and the random source is advanced once for each uncovered
  position whose overall counts tie, and for no other position.
\<close>

theorem majority_vote_ties:
  assumes "snv_matrix L M"
  shows
    "(i < R \<and> j < L \<and> covered (select_rows M idx i) j \<longrightarrow>
       (let cnt = counts L (select_rows M idx i) ! j; k = argmax cnt
        in k < 4 \<and> (\<forall>c<4. cnt ! c \<le> cnt ! k) \<and> (\<forall>c<k. cnt ! c < cnt ! k) \<and>
           fst (major_vote rnd A L M idx R g) ! i ! j = int k + 1 \<and>
           fst (major_vote rnd' A' L M idx R g') ! i ! j = int k + 1 \<and>
           deletion_vote L M idx R ! i ! j = int k + 1)) \<and>
     snd (major_vote rnd A L M idx R g) =
       ((\<lambda>g. snd (rnd g)) ^^
          sum_list (map (\<lambda>i. length (filter (\<lambda>p. \<not> covered (select_rows M idx i) p \<and>
                                                length (where_max (A ! p)) \<noteq> 1) [0..<L]))
            [0..<R])) g"
proof (intro conjI impI)
  assume h: "i < R \<and> j < L \<and> covered (select_rows M idx i) j"
  let ?rs = "select_rows M idx i"
  let ?cnt = "counts L ?rs ! j"
  have snv: "snv_matrix L ?rs" by (rule snv_select_rows [OF assms])
  have len: "length ?cnt = 4" using h by (simp add: length_counts_row)
  then have ne: "?cnt \<noteq> []" by auto
  have k: "argmax ?cnt < 4" using argmax_less [OF ne] len by simp
  have ge: "\<forall>c<4. ?cnt ! c \<le> ?cnt ! argmax ?cnt"
    using argmax_greatest [OF ne] len by simp
  have first: "\<forall>c<argmax ?cnt. ?cnt ! c < ?cnt ! argmax ?cnt"
    using argmax_first [OF ne] by simp
  have v: "fst (major_vote r B L M idx R s) ! i ! j = int (argmax ?cnt) + 1" for r B s
    using h by (simp add: major_vote_nth vote_row_covered [OF snv])
  have d: "deletion_vote L M idx R ! i ! j = int (argmax ?cnt) + 1"
    using h by (simp add: deletion_vote_def deletion_row_covered [OF snv])
  show "let cnt = counts L ?rs ! j; k = argmax cnt
        in k < 4 \<and> (\<forall>c<4. cnt ! c \<le> cnt ! k) \<and> (\<forall>c<k. cnt ! c < cnt ! k) \<and>
           fst (major_vote rnd A L M idx R g) ! i ! j = int k + 1 \<and>
           fst (major_vote rnd' A' L M idx R g') ! i ! j = int k + 1 \<and>
           deletion_vote L M idx R ! i ! j = int k + 1"
    unfolding Let_def using k ge first v [of rnd A g] v [of rnd' A' g'] d by simp
next
  show "snd (major_vote rnd A L M idx R g) =
       ((\<lambda>g. snd (rnd g)) ^^
          sum_list (map (\<lambda>i. length (filter (\<lambda>p. \<not> covered (select_rows M idx i) p \<and>
                                                length (where_max (A ! p)) \<noteq> 1) [0..<L]))
            [0..<R])) g"
    by (rule major_vote_snd [OF assms])
qed

theorem majority_vote_ties_witness:
  "snv_matrix 2 [[1, 0], [2, 0], [0, 3], [0, 4]] \<and>
   ((0::nat) < 2 \<and> (0::nat) < 2 \<and>
      covered (select_rows [[1, 0], [2, 0], [0, 3], [0, 4]] [0, 0, 1, 1] 0) 0) \<and>
   (let cnt = counts 2 (select_rows [[1, 0], [2, 0], [0, 3], [0, 4]] [0, 0, 1, 1] 0) ! 0;
        k = argmax cnt
    in k < 4 \<and> (\<forall>c<4. cnt ! c \<le> cnt ! k) \<and> (\<forall>c<k. cnt ! c < cnt ! k) \<and>
       fst (major_vote (\<lambda>g. (1 / 2, Suc g)) (counts 2 [[1, 0], [2, 0], [0, 3], [0, 4]]) 2
              [[1, 0], [2, 0], [0, 3], [0, 4]] [0, 0, 1, 1] 2 0) ! 0 ! 0 = int k + 1 \<and>
       fst (major_vote (\<lambda>g. (1 / 3, g + 2)) (counts 2 [[1, 0], [2, 0], [0, 3], [0, 4]]) 2
              [[1, 0], [2, 0], [0, 3], [0, 4]] [0, 0, 1, 1] 2 5) ! 0 ! 0 = int k + 1 \<and>
       deletion_vote 2 [[1, 0], [2, 0], [0, 3], [0, 4]] [0, 0, 1, 1] 2 ! 0 ! 0 = int k + 1) \<and>
   counts 2 (select_rows [[1, 0], [2, 0], [0, 3], [0, 4]] [0, 0, 1, 1] 0) ! 0 = [1, 1, 0, 0] \<and>
   argmax [1, 1, 0, 0 :: int] = 0 \<and>
   major_vote (\<lambda>g. (1 / 2, Suc g)) (counts 2 [[1, 0], [2, 0], [0, 3], [0, 4]]) 2
     [[1, 0], [2, 0], [0, 3], [0, 4]] [0, 0, 1, 1] 2 0 = ([[1, 4], [2, 3]], 2) \<and>
   deletion_vote 2 [[1, 0], [2, 0], [0, 3], [0, 4]] [0, 0, 1, 1] 2 = [[1, 0], [0, 3]]"
proof -
  let ?M = "[[1, 0], [2, 0], [0, 3], [0, 4 :: int]]"
  let ?idx = "[0, 0, 1, 1 :: nat]"
  have h: "snv_matrix 2 ?M" by (simp add: snv_matrix_def wf_matrix_def)
  have pre: "(0::nat) < 2 \<and> (0::nat) < 2 \<and> covered (select_rows ?M ?idx 0) 0"
    by code_simp
  have cs: "counts 2 (select_rows ?M ?idx 0) ! 0 = [1, 1, 0, 0]"
    by code_simp
  have am: "argmax [1, 1, 0, 0 :: int] = 0"
    by code_simp
  have mv: "major_vote (\<lambda>g. (1 / 2, Suc g)) (counts 2 ?M) 2 ?M ?idx 2 0 = ([[1, 4], [2, 3]], 2)"
    by code_simp
  have dv: "deletion_vote 2 ?M ?idx 2 = [[1, 0], [0, 3]]"
    by code_simp
  note T = majority_vote_ties [OF h, of 0 2 0 ?idx "\<lambda>g. (1 / 2, Suc g)" "counts 2 ?M" 0
      "\<lambda>g. (1 / 3, g + 2)" "counts 2 ?M" 5]
  from T [THEN conjunct1] pre
  have "let cnt = counts 2 (select_rows ?M ?idx 0) ! 0; k = argmax cnt
    in k < 4 \<and> (\<forall>c<4. cnt ! c \<le> cnt ! k) \<and> (\<forall>c<k. cnt ! c < cnt ! k) \<and>
       fst (major_vote (\<lambda>g. (1 / 2, Suc g)) (counts 2 ?M) 2 ?M ?idx 2 0) ! 0 ! 0 = int k + 1 \<and>
       fst (major_vote (\<lambda>g. (1 / 3, g + 2)) (counts 2 ?M) 2 ?M ?idx 2 5) ! 0 ! 0 = int k + 1 \<and>
       deletion_vote 2 ?M ?idx 2 ! 0 ! 0 = int k + 1"
    by (rule mp)
  with h pre cs am mv dv show ?thesis by blast
qed


section \<open>The loop of the alternating minimization\<close>

lemma ext_le_iff: "ext_le x t \<longleftrightarrow> \<not> ext_gt x t"
  by (cases x) (auto simp: ext_le_def ext_gt_def)

lemma am_step_ite: "am_ite (am_step rnd M_E R hap_len s) = am_ite s + 1"
  by (simp add: am_step_def Let_def)

lemma am_loop_True:
  "am_continue s \<Longrightarrow>
   am_loop rnd M_E R hap_len s = am_loop rnd M_E R hap_len (am_step rnd M_E R hap_len s)"
  by (subst am_loop.simps) (simp only: if_True)

lemma am_loop_False: "\<not> am_continue s \<Longrightarrow> am_loop rnd M_E R hap_len s = s"
  by (subst am_loop.simps) (simp only: if_False)

lemma am_loop_stops: "\<not> am_continue (am_loop rnd M_E R hap_len s)"
proof (induction rnd M_E R hap_len s rule: am_loop.induct)
  case (1 rnd M_E R hap_len s)
  show ?case
  proof (cases "am_continue s")
    case True
    with "1.IH" show ?thesis by (simp add: am_loop_True)
  next
    case False
    then show ?thesis by (simp add: am_loop_False)
  qed
qed

lemma am_loop_ite_le:
  "am_ite s \<le> max_ite \<Longrightarrow> am_ite (am_loop rnd M_E R hap_len s) \<le> max_ite"
proof (induction rnd M_E R hap_len s rule: am_loop.induct)
  case (1 rnd M_E R hap_len s)
  show ?case
  proof (cases "am_continue s")
    case True
    then have "am_ite (am_step rnd M_E R hap_len s) \<le> max_ite"
      by (simp add: am_continue_def am_step_ite)
    with "1.IH" [OF True] True show ?thesis by (simp add: am_loop_True)
  next
    case False
    with "1.prems" show ?thesis by (simp add: am_loop_False)
  qed
qed

lemma am_loop_ite_ge:
  "am_ite s \<le> am_ite (am_loop rnd M_E R hap_len s)"
proof (induction rnd M_E R hap_len s rule: am_loop.induct)
  case (1 rnd M_E R hap_len s)
  show ?case
  proof (cases "am_continue s")
    case True
    with "1.IH" [OF True] show ?thesis by (simp add: am_step_ite am_loop_True)
  next
    case False
    then show ?thesis by (simp add: am_loop_False)
  qed
qed

lemma am_continue_init: "am_continue (am_init R hap_len Vt g)"
  by (simp add: am_continue_def am_init_def ext_gt_def max_ite_def)

lemma argmin_single: "argmin [x] = 0"
  by (simp add: argmin_def min_list_def)

text \<open>
  C1, as the code has it. The loop runs another iteration exactly when all three
  quantities exceed \<open>10\<^sup>-\<^sup>5\<close> and fewer than 2000 iterations were made; so it stops as
  soon as one of \<open>err\<close>, \<open>err_Com\<close>, \<open>err_hap\<close> is at most \<open>10\<^sup>-\<^sup>5\<close>, or at 2000
  iterations. At exit, one of the three quantities is at most \<open>10\<^sup>-\<^sup>5\<close> or exactly 2000
  iterations were performed, and at least one iteration was performed.
\<close>

theorem am_loop_exit:
  "(am_loop rnd M_E R hap_len s =
      (if ext_gt (am_err_hap s) error_thre \<and> ext_gt (am_err s) error_thre \<and>
          ext_gt (am_err_Com s) error_thre \<and> am_ite s < max_ite
       then am_loop rnd M_E R hap_len (am_step rnd M_E R hap_len s) else s)) \<and>
   (ext_le (am_err (am_loop rnd M_E R hap_len (am_init R hap_len Vt g))) error_thre \<or>
    ext_le (am_err_Com (am_loop rnd M_E R hap_len (am_init R hap_len Vt g))) error_thre \<or>
    ext_le (am_err_hap (am_loop rnd M_E R hap_len (am_init R hap_len Vt g))) error_thre \<or>
    am_ite (am_loop rnd M_E R hap_len (am_init R hap_len Vt g)) = 2000) \<and>
   1 \<le> am_ite (am_loop rnd M_E R hap_len (am_init R hap_len Vt g))"
proof (intro conjI)
  show "am_loop rnd M_E R hap_len s =
      (if ext_gt (am_err_hap s) error_thre \<and> ext_gt (am_err s) error_thre \<and>
          ext_gt (am_err_Com s) error_thre \<and> am_ite s < max_ite
       then am_loop rnd M_E R hap_len (am_step rnd M_E R hap_len s) else s)"
    by (subst am_loop.simps) (simp only: am_continue_def)
next
  let ?final = "am_loop rnd M_E R hap_len (am_init R hap_len Vt g)"
  have "am_ite ?final \<le> max_ite"
    by (rule am_loop_ite_le) (simp add: am_init_def)
  moreover have "\<not> am_continue ?final" by (rule am_loop_stops)
  ultimately show "ext_le (am_err ?final) error_thre \<or> ext_le (am_err_Com ?final) error_thre \<or>
      ext_le (am_err_hap ?final) error_thre \<or> am_ite ?final = 2000"
    unfolding am_continue_def ext_le_iff max_ite_def by linarith
next
  let ?init = "am_init R hap_len Vt g :: 'a am_state"
  have "am_loop rnd M_E R hap_len ?init = am_loop rnd M_E R hap_len (am_step rnd M_E R hap_len ?init)"
    by (rule am_loop_True [OF am_continue_init])
  moreover have "am_ite (am_step rnd M_E R hap_len ?init) \<le>
      am_ite (am_loop rnd M_E R hap_len (am_step rnd M_E R hap_len ?init))"
    by (rule am_loop_ite_ge)
  ultimately show "1 \<le> am_ite (am_loop rnd M_E R hap_len ?init)"
    by (simp add: am_step_ite)
qed

text \<open>
  Two identical reads \<open>[[1, 1], [1, 1]]\<close> and \<open>R = 1\<close>: the first iteration fits the
  reads exactly, so \<open>err = 0\<close> and the loop stops after one iteration, while \<open>err_Com\<close>
  is still \<^verbatim>\<open>np.inf\<close> and \<open>err_hap\<close> is far from 0. The initial haplotype
  \<open>[1, 1, 0, 0, 0, 0, 0, 0]\<close> is what the SVD gives for these reads (singular value 2,
  singular vector \<open>[1, 1, 0, ...] / \<surd>2\<close>, scaled by \<open>\<surd>2\<close>).
\<close>

lemma am_first_step:
  "am_err (am_step (\<lambda>g::nat. (0, Suc g)) [[1, 1], [1, 1]] 1 2
     (am_init 1 2 [[1, 1, 0, 0, 0, 0, 0, 0]] 0)) = Fin 0"
  "am_ite (am_step (\<lambda>g::nat. (0, Suc g)) [[1, 1], [1, 1]] 1 2
     (am_init 1 2 [[1, 1, 0, 0, 0, 0, 0, 0]] 0)) = 1"
  "am_err_Com (am_step (\<lambda>g::nat. (0, Suc g)) [[1, 1], [1, 1]] 1 2
     (am_init 1 2 [[1, 1, 0, 0, 0, 0, 0, 0]] 0)) = Inf"
proof -
  have u: "[0..<1] = [0]" "[0..<2] = [0, 1]" by (simp_all add: upt_rec)
  have e1: "tensor_encode [[1, 1], [1, 1]] =
      [[1, 1, 0, 0, 0, 0, 0, 0], [1, 1, 0, 0, 0, 0, 0, 0]]"
    by code_simp
  have e2: "P_tensor_of [[1, 1], [1, 1]] =
      [[1, 1, 1, 1, 1, 1, 1, 1], [1, 1, 1, 1, 1, 1, 1, 1]]"
    by code_simp
  have e3: "major_vote (\<lambda>g::nat. (0, Suc g)) (counts 2 [[1, 1], [1, 1]]) 2 [[1, 1], [1, 1]]
      [0, 0] 1 0 = ([[1, 1]], 0)"
    by code_simp
  have e4: "tensor_encode [[1, 1]] = [[1, 1, 0, 0, 0, 0, 0, 0]]"
    by code_simp
  have e5: "mat_mul (mat_sub [[1, 1, 0, 0, 0, 0, 0, 0], [1, 1, 0, 0, 0, 0, 0, 0]]
         (dot [eye 1 ! 0, eye 1 ! 0] [[1, 1, 0, 0, 0, 0, 0, 0]]))
       [[1, 1, 1, 1, 1, 1, 1, 1], [1, 1, 1, 1, 1, 1, 1, 1]] =
       [[0, 0, 0, 0, 0, 0, 0, 0], [0, 0, 0, 0, 0, 0, 0, 0]]"
    by code_simp
  have e6: "fro_norm [[0, 0, 0, 0, 0, 0, 0, 0], [0, 0, 0, 0, 0, 0, 0, 0]] = 0"
    by (simp add: fro_norm_def)
  show "am_err (am_step (\<lambda>g::nat. (0, Suc g)) [[1, 1], [1, 1]] 1 2
     (am_init 1 2 [[1, 1, 0, 0, 0, 0, 0, 0]] 0)) = Fin 0"
    "am_ite (am_step (\<lambda>g::nat. (0, Suc g)) [[1, 1], [1, 1]] 1 2
     (am_init 1 2 [[1, 1, 0, 0, 0, 0, 0, 0]] 0)) = 1"
    "am_err_Com (am_step (\<lambda>g::nat. (0, Suc g)) [[1, 1], [1, 1]] 1 2
     (am_init 1 2 [[1, 1, 0, 0, 0, 0, 0, 0]] 0)) = Inf"
    unfolding am_step_def Let_def u
    by (simp_all add: am_init_def e1 e2 e3 e4 e5 e6 argmin_single del: One_nat_def)
qed

lemma am_run_two_reads:
  "am_loop (\<lambda>g::nat. (0, Suc g)) [[1, 1], [1, 1]] 1 2 (am_init 1 2 [[1, 1, 0, 0, 0, 0, 0, 0]] 0) =
   am_step (\<lambda>g::nat. (0, Suc g)) [[1, 1], [1, 1]] 1 2 (am_init 1 2 [[1, 1, 0, 0, 0, 0, 0, 0]] 0)"
proof -
  let ?init = "am_init 1 2 [[1, 1, 0, 0, 0, 0, 0, 0]] (0::nat)"
  let ?s1 = "am_step (\<lambda>g::nat. (0, Suc g)) [[1, 1], [1, 1]] 1 2 ?init"
  have "\<not> am_continue ?s1"
    unfolding am_continue_def am_first_step by (simp add: ext_gt_def error_thre_def)
  then have "am_loop (\<lambda>g::nat. (0, Suc g)) [[1, 1], [1, 1]] 1 2 ?s1 = ?s1"
    by (rule am_loop_False)
  moreover have "am_loop (\<lambda>g::nat. (0, Suc g)) [[1, 1], [1, 1]] 1 2 ?init =
      am_loop (\<lambda>g::nat. (0, Suc g)) [[1, 1], [1, 1]] 1 2 ?s1"
    by (rule am_loop_True [OF am_continue_init])
  ultimately show ?thesis by (simp only:)
qed

theorem am_loop_exit_counterexample:
  "\<not> ((ext_le (am_err (am_loop (\<lambda>g::nat. (0, Suc g)) [[1, 1], [1, 1]] 1 2
                (am_init 1 2 [[1, 1, 0, 0, 0, 0, 0, 0]] 0))) error_thre \<and>
        ext_le (am_err_Com (am_loop (\<lambda>g::nat. (0, Suc g)) [[1, 1], [1, 1]] 1 2
                (am_init 1 2 [[1, 1, 0, 0, 0, 0, 0, 0]] 0))) error_thre \<and>
        ext_le (am_err_hap (am_loop (\<lambda>g::nat. (0, Suc g)) [[1, 1], [1, 1]] 1 2
                (am_init 1 2 [[1, 1, 0, 0, 0, 0, 0, 0]] 0))) error_thre) \<or>
       am_ite (am_loop (\<lambda>g::nat. (0, Suc g)) [[1, 1], [1, 1]] 1 2
                (am_init 1 2 [[1, 1, 0, 0, 0, 0, 0, 0]] 0)) = 2000)"
  unfolding am_run_two_reads am_first_step by (simp add: ext_le_def)

theorem am_loop_exit_witness:
  "ext_le (am_err (am_loop (\<lambda>g::nat. (0, Suc g)) [[1, 1], [1, 1]] 1 2
            (am_init 1 2 [[1, 1, 0, 0, 0, 0, 0, 0]] 0))) error_thre \<and>
   am_ite (am_loop (\<lambda>g::nat. (0, Suc g)) [[1, 1], [1, 1]] 1 2
            (am_init 1 2 [[1, 1, 0, 0, 0, 0, 0, 0]] 0)) = 1"
proof -
  note T = am_loop_exit [of "\<lambda>g::nat. (0, Suc g)" "[[1, 1], [1, 1]]" 1 2
      "am_init 1 2 [[1, 1, 0, 0, 0, 0, 0, 0]] 0" "[[1, 1, 0, 0, 0, 0, 0, 0]]" 0]
  from T [THEN conjunct2, THEN conjunct2]
  have "1 \<le> am_ite (am_loop (\<lambda>g::nat. (0, Suc g)) [[1, 1], [1, 1]] 1 2
            (am_init 1 2 [[1, 1, 0, 0, 0, 0, 0, 0]] 0))" .
  then show ?thesis
    unfolding am_run_two_reads am_first_step by (simp add: ext_le_def error_thre_def)
qed


section \<open>The assignment of an iteration\<close>

text \<open>
  The U-update sends each read to a haplotype below \<open>R\<close>, and identical reads to the
  same haplotype; the loop, which runs at least once, ends with the result of an
  iteration.
\<close>

lemma argmin_less:
  assumes "xs \<noteq> []"
  shows "argmin xs < length xs"
proof -
  have "Min (set xs) \<in> set xs" using assms by simp
  then have "\<exists>x\<in>set xs. \<not> x \<noteq> min_list xs" using assms by (simp add: min_list_Min)
  then show ?thesis unfolding argmin_def by (rule length_takeWhile_less_ex)
qed

lemma length_P_tensor_of: "length (P_tensor_of M) = length M"
  by (simp add: P_tensor_of_def)

lemma dist_same_row:
  assumes "n < length M" "m < length M" "M ! n = M ! m"
  shows "proj_sq_dist (tensor_encode M) v (P_tensor_of M) ! n =
         proj_sq_dist (tensor_encode M) v (P_tensor_of M) ! m"
  using assms
  by (simp add: proj_sq_dist_def length_tensor_encode tensor_encode_row P_tensor_of_def)

lemma map_nth_upt: "map (\<lambda>x. g (map f [0..<R] ! x)) [0..<R] = map (\<lambda>i. g (f i)) [0..<R]"
  by (rule map_cong) simp_all

lemma am_step_assign:
  assumes "0 < R"
  shows "\<exists>idx. length idx = length M \<and> (\<forall>n<length M. idx ! n < R) \<and>
     (\<forall>n<length M. \<forall>m<length M. M ! n = M ! m \<longrightarrow> idx ! n = idx ! m) \<and>
     am_U (am_step rnd M R L s) = map (\<lambda>k. eye R ! k) idx \<and>
     am_Vt (am_step rnd M R L s) =
       tensor_encode (fst (major_vote rnd (counts L M) L M idx R (am_rng s))) \<and>
     am_rng (am_step rnd M R L s) = snd (major_vote rnd (counts L M) L M idx R (am_rng s))"
proof -
  let ?d = "\<lambda>i. proj_sq_dist (tensor_encode M) (am_Vt s ! i) (P_tensor_of M)"
  let ?idx = "map (\<lambda>n. argmin (map (\<lambda>i. map ?d [0..<R] ! i ! n) [0..<R])) [0..<length M]"
  have m: "map (\<lambda>i. map ?d [0..<R] ! i ! n) [0..<R] = map (\<lambda>i. ?d i ! n) [0..<R]" for n
    by (rule map_cong) simp_all
  have a: "?idx ! n = argmin (map (\<lambda>i. ?d i ! n) [0..<R])" if "n < length M" for n
    using that by (simp add: m)
  have b: "?idx ! n < R" if "n < length M" for n
    unfolding a [OF that] using argmin_less [of "map (\<lambda>i. ?d i ! n) [0..<R]"] assms by simp
  have c: "?idx ! n = ?idx ! m" if "n < length M" "m < length M" "M ! n = M ! m" for n m
    unfolding a [OF that(1)] a [OF that(2)] by (simp add: dist_same_row [OF that])
  show ?thesis
    apply (rule exI [of _ ?idx])
    apply (intro conjI allI impI)
    subgoal by simp
    subgoal by (rule b)
    subgoal by (rule c)
    subgoal by (simp add: am_step_def Let_def)
    subgoal by (simp add: am_step_def Let_def)
    subgoal by (simp add: am_step_def Let_def)
    done
qed

lemma am_loop_last_step_rng:
  assumes "\<And>t. am_rng (am_step rnd M_E R hap_len t) = am_rng t" "am_continue s"
  shows "\<exists>s'. am_rng s' = am_rng s \<and> am_loop rnd M_E R hap_len s = am_step rnd M_E R hap_len s'"
  using assms
proof (induction rnd M_E R hap_len s rule: am_loop.induct)
  case (1 rnd M_E R hap_len s)
  show ?case
  proof (cases "am_continue (am_step rnd M_E R hap_len s)")
    case True
    from "1.IH" [OF "1.prems"(2) "1.prems"(1) True] "1.prems"(1) [of s] show ?thesis
      by (simp add: am_loop_True [OF "1.prems"(2)])
  next
    case False
    then show ?thesis
      using am_loop_True [OF "1.prems"(2), of rnd M_E R hap_len] am_loop_False [OF False]
      by auto
  qed
qed

lemma length_fill_uncov:
  "length (fst (foldl (fill_uncov rnd A) vg ps)) = length (fst vg)"
  by (induction ps arbitrary: vg) (simp_all add: fill_uncov_def Let_def)

lemma length_vote_row: "length (fst (vote_row rnd A L rs g)) = L"
  by (simp add: vote_row_def Let_def length_fill_uncov length_single_sta)

lemma wf_major_vote: "wf_matrix L (fst (major_vote rnd A L M idx R g))"
proof -
  have "length (fst (major_vote rnd A L M idx R g) ! i) = L" if "i < R" for i
    using that by (simp add: major_vote_nth length_vote_row)
  then show ?thesis
    by (simp add: wf_matrix_def list_all_length length_major_vote)
qed

lemma decode_row:
  assumes "wf_matrix L V" "i < length V" "list_all (\<lambda>x. 1 \<le> x \<and> x \<le> 4) (V ! i)"
  shows "tensor_decode (length V) L (tensor_encode V) ! i = V ! i"
proof (rule nth_equalityI)
  have len: "length (V ! i) = L"
    using assms(1,2) by (simp add: wf_matrix_def list_all_length)
  show l: "length (tensor_decode (length V) L (tensor_encode V) ! i) = length (V ! i)"
    using assms(2) by (simp add: tensor_decode_def reshape_F_def len)
  fix j assume "j < length (tensor_decode (length V) L (tensor_encode V) ! i)"
  then have j: "j < L" using l len by simp
  then have "1 \<le> V ! i ! j \<and> V ! i ! j \<le> 4"
    using assms(3) len by (simp add: list_all_length)
  then show "tensor_decode (length V) L (tensor_encode V) ! i ! j = V ! i ! j"
    using tensor_decode_encode_entry [OF assms(1,2) j] by simp
qed


section \<open>The empty-selection guard\<close>

lemma sc_loop_abort:
  assumes "sc_R s \<noteq> 0" "length (sc_M_E s) > sc_R s"
    and "sc_am svds rnd hap_len svd_flag s = Inr a"
    and "sc_index binom_pmf seq_err hap_len s a = []"
  shows "sc_loop svds binom_pmf seq_err rnd hap_len svd_flag s =
         Inr (False, s\<lparr>sc_rng := am_rng a\<rparr>)"
  using assms by (subst sc_loop.simps) simp

lemma sc_loop_peel:
  assumes "sc_R s \<noteq> 0" "length (sc_M_E s) > sc_R s"
    and "sc_am svds rnd hap_len svd_flag s = Inr a"
    and "sc_index binom_pmf seq_err hap_len s a \<noteq> []"
  shows "sc_loop svds binom_pmf seq_err rnd hap_len svd_flag s =
         sc_loop svds binom_pmf seq_err rnd hap_len svd_flag
           (sc_peel hap_len s a (sc_index binom_pmf seq_err hap_len s a))"
  using assms by (subst sc_loop.simps) simp

lemma sc_loop_exit:
  assumes "\<not> (sc_R s \<noteq> 0 \<and> length (sc_M_E s) > sc_R s)"
  shows "sc_loop svds binom_pmf seq_err rnd hap_len svd_flag s = Inr (True, s)"
  using assms by (subst sc_loop.simps) auto







section \<open>The frequencies of the output\<close>

lemma hash_add_present:
  assumes "distinct (map fst tbl)" "k \<in> fst ` set tbl"
  shows "sum_list (map snd (map (\<lambda>(k', x). if k' = k then (k', x + v) else (k', x)) tbl)) =
         sum_list (map snd tbl) + (v::real)"
  using assms
proof (induction tbl)
  case Nil
  then show ?case by simp
next
  case (Cons p tbl)
  obtain k' x where p: "p = (k', x)" by (cases p)
  show ?case
  proof (cases "k' = k")
    case True
    then have "k \<notin> fst ` set tbl" using Cons.prems(1) p by auto
    then have "map (\<lambda>(k', x). if k' = k then (k', x + v) else (k', x)) tbl = tbl"
      by (intro map_idI) force
    then show ?thesis using True p by simp
  next
    case False
    then have "k \<in> fst ` set tbl" using Cons.prems(2) p by auto
    with Cons.IH Cons.prems(1) False p show ?thesis by simp
  qed
qed

lemma hash_add_sum:
  assumes "distinct (map fst tbl)"
  shows "distinct (map fst (hash_add tbl kv)) \<and>
         sum_list (map snd (hash_add tbl kv)) = sum_list (map snd tbl) + snd kv"
proof (cases "map_of tbl (fst kv)")
  case None
  then have "fst kv \<notin> fst ` set tbl" by (simp add: map_of_eq_None_iff)
  with None assms show ?thesis by (simp add: hash_add_def)
next
  case (Some v)
  then have mem: "fst kv \<in> fst ` set tbl"
    by (metis map_of_eq_None_iff option.distinct(1))
  have keys: "map fst (map (\<lambda>(k, x). if k = fst kv then (k, x + snd kv) else (k, x)) tbl) =
              map fst tbl"
    by (induction tbl) auto
  have d: "distinct (map fst (map (\<lambda>(k, x). if k = fst kv then (k, x + snd kv) else (k, x)) tbl))"
    unfolding keys by (rule assms)
  have eq: "hash_add tbl kv = map (\<lambda>(k, x). if k = fst kv then (k, x + snd kv) else (k, x)) tbl"
    by (simp add: hash_add_def Some)
  show ?thesis
    unfolding eq using d hash_add_present [OF assms mem, of "snd kv"] by blast
qed

lemma foldl_hash_add_sum:
  assumes "distinct (map fst tbl)"
  shows "sum_list (map snd (foldl hash_add tbl kvs)) =
         sum_list (map snd tbl) + sum_list (map snd kvs)"
  using assms
proof (induction kvs arbitrary: tbl)
  case Nil
  then show ?case by simp
next
  case (Cons kv kvs)
  from hash_add_sum [OF Cons.prems, of kv] Cons.IH [of "hash_add tbl kv"]
  show ?case by simp
qed

lemma sum_list_permuted:
  fixes H :: "(string \<times> real) list"
  assumes "mset idx = mset [0..<length H]"
  shows "sum_list (map snd (map (\<lambda>i. H ! i) (rev idx))) = sum_list (map snd H)"
proof -
  have "mset (map (\<lambda>i. snd (H ! i)) (rev idx)) = image_mset (\<lambda>i. snd (H ! i)) (mset idx)"
    by simp
  also have "\<dots> = mset (map (\<lambda>i. snd (H ! i)) [0..<length H])"
    by (simp add: assms)
  also have "map (\<lambda>i. snd (H ! i)) [0..<length H] = map snd H"
    by (rule nth_equalityI) simp_all
  finally have "mset (map (\<lambda>i. snd (H ! i)) (rev idx)) = mset (map snd H)" .
  then have "sum_mset (mset (map (\<lambda>i. snd (H ! i)) (rev idx))) = sum_mset (mset (map snd H))"
    by (rule arg_cong)
  then have "sum_list (map (\<lambda>i. snd (H ! i)) (rev idx)) = sum_list (map snd H)"
    by (simp only: sum_mset_sum_list)
  then show ?thesis by (simp add: comp_def)
qed

lemma count_indices_sum:
  assumes "list_all (\<lambda>a. a < m) index"
  shows "sum_list (fre_count_of index m) = length index"
  using assms
proof (induction index)
  case Nil
  then show ?case by (simp add: fre_count_of_def)
next
  case (Cons a index)
  then have a: "a < m" by simp
  have one: "sum_list (map (\<lambda>i. if a = i then 1 else 0) [0..<m]) = (1::nat)"
    using a by (simp add: interv_sum_list_conv_sum_set_nat)
  have "sum_list (fre_count_of (a # index) m) =
        sum_list (map (\<lambda>i. (if a = i then 1 else 0) + length (filter (\<lambda>b. b = i) index)) [0..<m])"
    unfolding fre_count_of_def by (rule arg_cong [where f = sum_list]) (rule map_cong, auto)
  also have "\<dots> = 1 + sum_list (fre_count_of index m)"
    by (simp add: sum_list_addf one fre_count_of_def)
  finally show ?case using Cons by simp
qed

lemma viralseq_fre_sum:
  assumes "sum_list fre_count \<noteq> 0"
  shows "sum_list (viralseq_fre_of fre_count) = 1"
proof -
  have "sum_list (map (\<lambda>c. real c / d) cs) = real (sum_list cs) / d" for d cs
    by (induction cs) (simp_all add: add_divide_distrib)
  then show ?thesis using assms by (simp add: viralseq_fre_of_def)
qed

lemma rows_equal_iff:
  assumes "length a = length b"
  shows "rows_equal a b \<longleftrightarrow> a = b"
proof -
  have "rows_equal a b \<longleftrightarrow> (\<forall>(x, y)\<in>set (zip a b). x = y)"
    by (auto simp: rows_equal_def filter_empty_conv)
  then show ?thesis using assms by (simp add: list_eq_iff_zip_eq)
qed

lemma foldl_cond_sum:
  fixes f :: "nat \<Rightarrow> real"
  shows "foldl (\<lambda>tem j. if P j then tem + f j else tem) a js =
         a + sum_list (map (\<lambda>j. if P j then f j else 0) js)"
  by (induction js arbitrary: a) simp_all

lemma length_deletion_row: "length (deletion_row L rs) = L"
proof -
  have "length (foldl (\<lambda>v p. v[p := (0::int)]) v ps) = length v" for v ps
    by (induction ps arbitrary: v) simp_all
  then show ?thesis by (simp add: deletion_row_def Let_def length_single_sta)
qed

lemma deletion_vote_rows:
  "length (deletion_vote L M idx m) = m"
  "j < m \<Longrightarrow> length (deletion_vote L M idx m ! j) = L"
  by (simp_all add: deletion_vote_def length_deletion_row)

lemma argsort_entries:
  assumes "mset idx = mset [0..<n]"
  shows "list_all (\<lambda>k. k < n) (rev idx)" "length idx = n"
proof -
  have "set idx = set [0..<n]" using assms by (rule mset_eq_setD)
  then show "list_all (\<lambda>k. k < n) (rev idx)" by (auto simp: list_all_iff)
  show "length idx = n" using assms by (metis size_mset length_upt diff_zero)
qed

lemma double_sum_distinct:
  fixes f :: "nat \<Rightarrow> real"
  assumes "distinct Vn" "set V \<subseteq> set Vn"
  shows "(\<Sum>i = 0..<length Vn. \<Sum>j = 0..<length V. if Vn ! i = V ! j then f j else 0) =
         (\<Sum>j = 0..<length V. f j)"
proof -
  have inner: "(\<Sum>i = 0..<length Vn. if Vn ! i = V ! j then f j else 0) = f j"
    if j: "j < length V" for j
  proof -
    from j assms(2) have "V ! j \<in> set Vn" by auto
    then obtain i0 where i0: "i0 < length Vn" "Vn ! i0 = V ! j"
      by (auto simp: in_set_conv_nth)
    have "(\<Sum>i = 0..<length Vn. if Vn ! i = V ! j then f j else 0) =
          (\<Sum>i = 0..<length Vn. if i = i0 then f j else 0)"
    proof (rule sum.cong [OF refl])
      fix i assume "i \<in> {0..<length Vn}"
      then have "i < length Vn" by simp
      from nth_eq_iff_index_eq [OF assms(1) this i0(1)]
      have "Vn ! i = V ! j \<longleftrightarrow> i = i0"
        by (simp only: i0(2))
      then show "(if Vn ! i = V ! j then f j else 0) = (if i = i0 then f j else 0)" by simp
    qed
    also have "\<dots> = f j" using i0(1) by simp
    finally show ?thesis .
  qed
  have "(\<Sum>i = 0..<length Vn. \<Sum>j = 0..<length V. if Vn ! i = V ! j then f j else 0) =
        (\<Sum>j = 0..<length V. \<Sum>i = 0..<length Vn. if Vn ! i = V ! j then f j else 0)"
    by (rule sum.swap)
  also have "\<dots> = (\<Sum>j = 0..<length V. f j)"
    by (rule sum.cong [OF refl]) (simp add: inner)
  finally show ?thesis .
qed

text \<open>
  C7, as the code has it. The frequencies of the haplotypes before the rank truncation
  sum to 1. The frequencies written to the FASTA file sum to the total, over the kept
  haplotypes, of the frequencies of the haplotypes of the original list identical to
  it; so they sum to 1 when the kept haplotypes are pairwise distinct and every
  haplotype of the original list is identical to a kept one. (\<open>argsort\<close> returns a
  permutation of the indices.)
\<close>

theorem fasta_frequencies_sum:
  assumes "\<forall>xs. mset (argsort xs) = mset [0..<length xs]"
    and "SNVmatrix \<noteq> []" "reconV2 \<noteq> []"
    and "postprocess argsort matrix_rank SNVmatrix reconV2 hap_len Homoseq SNVpos = Inr out"
  shows
    "let index = map argmax (iden_table SNVmatrix reconV2);
         V_deletion = deletion_vote hap_len SNVmatrix index (length reconV2);
         viralseq_fre = viralseq_fre_of (fre_count_of index (length reconV2));
         V_deletion_new = V_deletion_new_of argsort matrix_rank V_deletion viralseq_fre
     in sum_list viralseq_fre = 1 \<and>
        sum_list (map snd out) =
          (\<Sum>i = 0..<length V_deletion_new. \<Sum>j = 0..<length V_deletion.
              if V_deletion_new ! i = V_deletion ! j then viralseq_fre ! j else 0) \<and>
        (distinct V_deletion_new \<and> set V_deletion \<subseteq> set V_deletion_new \<longrightarrow>
           sum_list (map snd out) = 1)"
proof -
  let ?index = "map argmax (iden_table SNVmatrix reconV2)"
  let ?n = "length reconV2"
  let ?V = "deletion_vote hap_len SNVmatrix ?index ?n"
  let ?fre = "viralseq_fre_of (fre_count_of ?index ?n)"
  let ?Vn = "V_deletion_new_of argsort matrix_rank ?V ?fre"
  let ?m = "matrix_rank ?V"
  let ?new = "viralseq_fre_new_of ?Vn ?V ?fre ?m"
  let ?RQ = "map (\<lambda>i. set_positions Homoseq SNVpos (?Vn ! i)) [0..<?m]"
  let ?Quasi = "map (\<lambda>r. render (length Homoseq) 0 (projr r)) ?RQ"
  let ?H = "foldl hash_add [] (zip ?Quasi ?new)"
  have a: "argmax_axis1 (iden_table SNVmatrix reconV2) = Inr ?index"
    by (rule argmax_axis1_iden_table [OF assms(3)])
  have lenV: "length ?V = ?n" by (simp add: deletion_vote_rows)
  have lenfre: "length ?fre = ?n" by (simp add: viralseq_fre_of_def fre_count_of_def)
  have m_le: "\<not> ?m > length ?Vn" and out: "out = map (\<lambda>i. ?H ! i) (rev (argsort (map snd ?H)))"
    using assms(4) unfolding postprocess_def a Let_def
    by (auto split: if_splits)
  have idx: "list_all (\<lambda>k. k < ?n) (rev (argsort ?fre))"
    using argsort_entries(1) [of "argsort ?fre" ?n] assms(1) lenfre by simp
  have lenVn: "length ?Vn = ?m"
    using m_le by (simp add: V_deletion_new_of_def)
  have Vn_row: "\<exists>k<?n. ?Vn ! i = ?V ! k" if "i < ?m" for i
  proof -
    have i: "i < length (take ?m (rev (argsort ?fre)))"
      using that lenVn by (simp add: V_deletion_new_of_def)
    then have "take ?m (rev (argsort ?fre)) ! i \<in> set (rev (argsort ?fre))"
      by (metis nth_mem in_set_takeD)
    then have "take ?m (rev (argsort ?fre)) ! i < ?n"
      using idx by (simp add: list_all_iff)
    moreover have "?Vn ! i = ?V ! (take ?m (rev (argsort ?fre)) ! i)"
      using i by (simp add: V_deletion_new_of_def)
    ultimately show ?thesis by blast
  qed
  have req: "rows_equal (?Vn ! i) (?V ! j) \<longleftrightarrow> ?Vn ! i = ?V ! j" if "i < ?m" "j < ?n" for i j
  proof -
    from Vn_row [OF that(1)] obtain k where "k < ?n" "?Vn ! i = ?V ! k" by blast
    then have "length (?Vn ! i) = hap_len" by (simp add: deletion_vote_rows)
    moreover have "length (?V ! j) = hap_len" using that(2) by (simp add: deletion_vote_rows)
    ultimately show ?thesis by (simp add: rows_equal_iff)
  qed
  have new_i: "?new ! i = (\<Sum>j = 0..<?n. if ?Vn ! i = ?V ! j then ?fre ! j else 0)"
    if "i < ?m" for i
  proof -
    have "?new ! i = sum_list (map (\<lambda>j. if rows_equal (?Vn ! i) (?V ! j) then ?fre ! j else 0)
                       [0..<?n])"
      using that by (simp add: viralseq_fre_new_of_def foldl_cond_sum lenV)
    also have "\<dots> = sum_list (map (\<lambda>j. if ?Vn ! i = ?V ! j then ?fre ! j else 0) [0..<?n])"
      by (rule arg_cong [where f = sum_list], rule map_cong [OF refl]) (simp add: req [OF that])
    finally show ?thesis by (simp add: interv_sum_list_conv_sum_set_nat)
  qed
  have "sum_list (map snd out) = sum_list (map snd ?H)"
    unfolding out using assms(1) by (intro sum_list_permuted) simp
  also have "\<dots> = sum_list (map snd (zip ?Quasi ?new))"
    using foldl_hash_add_sum [of "[]" "zip ?Quasi ?new"] by simp
  also have "map snd (zip ?Quasi ?new) = ?new"
    by (simp add: viralseq_fre_new_of_def)
  also have "sum_list ?new = (\<Sum>i = 0..<?m. ?new ! i)"
    using sum_list_sum_nth [of ?new] by (simp add: viralseq_fre_new_of_def)
  also have "\<dots> = (\<Sum>i = 0..<?m. \<Sum>j = 0..<?n. if ?Vn ! i = ?V ! j then ?fre ! j else 0)"
    by (rule sum.cong [OF refl]) (simp add: new_i)
  finally have written: "sum_list (map snd out) =
      (\<Sum>i = 0..<length ?Vn. \<Sum>j = 0..<length ?V. if ?Vn ! i = ?V ! j then ?fre ! j else 0)"
    by (simp only: lenVn lenV)
  have "list_all (\<lambda>a. a < ?n) ?index"
  proof -
    have "argmax r < ?n" if "r \<in> set (iden_table SNVmatrix reconV2)" for r
    proof -
      from that have len: "length r = ?n" by (auto simp: iden_table_def)
      then have "r \<noteq> []" using assms(3) by auto
      from argmax_less [OF this] show ?thesis by (simp only: len)
    qed
    then show ?thesis by (simp add: list_all_iff)
  qed
  from count_indices_sum [OF this]
  have "sum_list (fre_count_of ?index ?n) = length SNVmatrix" by (simp add: iden_table_def)
  then have total: "sum_list ?fre = 1"
    using assms(2) by (intro viralseq_fre_sum) simp
  have one: "sum_list (map snd out) = 1" if "distinct ?Vn \<and> set ?V \<subseteq> set ?Vn"
  proof -
    from that double_sum_distinct [of ?Vn ?V "\<lambda>j. ?fre ! j"]
    have "sum_list (map snd out) = (\<Sum>j = 0..<length ?V. ?fre ! j)"
      by (simp only: written)
    also have "\<dots> = sum_list ?fre"
      using sum_list_sum_nth [of ?fre] by (simp only: lenV lenfre)
    finally show ?thesis using total by simp
  qed
  show ?thesis
    unfolding Let_def using total written one by blast
qed

text \<open>
  Five reads, three \<open>[1, 1]\<close> and two \<open>[2, 2]\<close>, and the two haplotypes \<open>[1, 1]\<close> and
  \<open>[2, 2]\<close>: the matrix of the haplotypes has rank 1, only the more frequent one is
  kept, and the single frequency written is \<open>3/5\<close>.
\<close>

theorem fasta_frequencies_sum_counterexample:
  "postprocess (\<lambda>xs. sort_key (\<lambda>i. xs ! i) [0..<length xs]) (\<lambda>V. 1)
     [[1, 1], [1, 1], [1, 1], [2, 2], [2, 2]] [[1, 1], [2, 2]] 2 [0, 0] [0, 1] =
     Inr [(''AA'', 3 / 5)] \<and>
   sum_list (map snd [(''AA'', 3 / 5 :: real)]) \<noteq> 1"
proof -
  have "postprocess (\<lambda>xs. sort_key (\<lambda>i. xs ! i) [0..<length xs]) (\<lambda>V. 1)
     [[1, 1], [1, 1], [1, 1], [2, 2], [2, 2]] [[1, 1], [2, 2]] 2 [0, 0] [0, 1] =
     Inr [(''AA'', 3 / 5)]"
    by code_simp
  then show ?thesis by simp
qed

theorem fasta_frequencies_sum_witness:
  "(\<forall>xs::real list. mset (sort_key (\<lambda>i. xs ! i) [0..<length xs]) = mset [0..<length xs]) \<and>
   [[1, 1], [1, 1], [1, 1], [2, 2], [2, 2 :: int]] \<noteq> [] \<and> [[1, 1], [2, 2 :: int]] \<noteq> [] \<and>
   postprocess (\<lambda>xs. sort_key (\<lambda>i. xs ! i) [0..<length xs]) (\<lambda>V. 2)
     [[1, 1], [1, 1], [1, 1], [2, 2], [2, 2]] [[1, 1], [2, 2]] 2 [0, 0] [0, 1] =
     Inr [(''AA'', 3 / 5), (''CC'', 2 / 5)] \<and>
   sum_list (viralseq_fre_of (fre_count_of
     (map argmax (iden_table [[1, 1], [1, 1], [1, 1], [2, 2], [2, 2]] [[1, 1], [2, 2]]))
     (length [[1, 1], [2, 2 :: int]]))) = 1 \<and>
   sum_list (map snd [(''AA'', 3 / 5 :: real), (''CC'', 2 / 5)]) = 1"
proof -
  let ?argsort = "\<lambda>xs::real list. sort_key (\<lambda>i. xs ! i) [0..<length xs]"
  have h1: "\<forall>xs. mset (?argsort xs) = mset [0..<length xs]" by simp
  have h2: "[[1, 1], [1, 1], [1, 1], [2, 2], [2, 2 :: int]] \<noteq> []"
    and h3: "[[1, 1], [2, 2 :: int]] \<noteq> []" by simp_all
  have h4: "postprocess ?argsort (\<lambda>V. 2)
     [[1, 1], [1, 1], [1, 1], [2, 2], [2, 2]] [[1, 1], [2, 2]] 2 [0, 0] [0, 1] =
     Inr [(''AA'', 3 / 5), (''CC'', 2 / 5)]"
    by code_simp
  from fasta_frequencies_sum [OF h1 h2 h3 h4, unfolded Let_def, THEN conjunct1]
  have "sum_list (viralseq_fre_of (fre_count_of
     (map argmax (iden_table [[1, 1], [1, 1], [1, 1], [2, 2], [2, 2]] [[1, 1], [2, 2]]))
     (length [[1, 1], [2, 2 :: int]]))) = 1" .
  with h1 h2 h3 h4 show ?thesis by simp
qed


section \<open>The rank estimation on three identical reads\<close>












lemma rank_loop_result:
  "rank_loop evalK MEC_thre K_step s = Inr s' \<Longrightarrow> int (rk_high s') - int (rk_low s') = 1"
proof (induction evalK MEC_thre K_step s rule: rank_loop.induct)
  case (1 evalK MEC_thre K_step s)
  show ?case
  proof (cases "int (rk_high s) - int (rk_low s) \<noteq> 1")
    case True
    with "1.prems" obtain t where t: "rank_step evalK MEC_thre K_step s = Inr t"
      and l: "rank_loop evalK MEC_thre K_step t = Inr s'"
      by (subst (asm) rank_loop.simps) (auto split: sum.splits)
    from "1.IH" [OF True t l] show ?thesis .
  next
    case False
    with "1.prems" have "s' = s" by (subst (asm) rank_loop.simps) simp
    with False show ?thesis by simp
  qed
qed




section \<open>Five reads of three kinds\<close>

text \<open>
  The read matrix \<open>[[1, 1], [1, 1], [1, 1], [2, 3], [3, 2]]\<close>: three identical reads and
  two reads that differ from them and from each other in both positions. Whatever the
  SVD returns, the haplotype of the largest cluster of an alternating minimization of
  rank 1, 2 or 3 is \<open>[1, 1]\<close>, and the selection keeps the three identical reads.
\<close>

lemma list5:
  assumes "length xs = 5"
  shows "xs = [xs ! 0, xs ! 1, xs ! 2, xs ! 3, xs ! 4]"
proof -
  from assms obtain a b c d e where "xs = [a, b, c, d, e]"
    by (auto simp: length_Suc_conv eval_nat_numeral)
  then show ?thesis by simp
qed

lemma snv_five: "snv_matrix 2 [[1, 1], [1, 1], [1, 1], [2, 3], [3, 2]]"
  by (simp add: snv_matrix_def wf_matrix_def)

lemma rng_five:
  "snd (major_vote rnd (counts 2 [[1, 1], [1, 1], [1, 1], [2, 3], [3, 2]]) 2
          [[1, 1], [1, 1], [1, 1], [2, 3], [3, 2]] idx R g) = g"
proof -
  have w: "length (where_max (counts 2 [[1, 1], [1, 1], [1, 1], [2, 3], [3, 2]] ! 0)) = Suc 0"
    "length (where_max (counts 2 [[1, 1], [1, 1], [1, 1], [2, 3], [3, 2]] ! Suc 0)) = Suc 0"
    by code_simp+
  have u: "[0..<2] = [0, 1]" by (simp add: upt_rec)
  show ?thesis
    unfolding major_vote_snd [OF snv_five] u by (simp add: w)
qed

lemma am_step_five:
  assumes "0 < R"
  shows "\<exists>cx cy cz. cx < R \<and> cy < R \<and> cz < R \<and>
     am_U (am_step rnd [[1, 1], [1, 1], [1, 1], [2, 3], [3, 2]] R 2 s) =
       map (\<lambda>k. eye R ! k) [cx, cx, cx, cy, cz] \<and>
     am_Vt (am_step rnd [[1, 1], [1, 1], [1, 1], [2, 3], [3, 2]] R 2 s) =
       tensor_encode (fst (major_vote rnd (counts 2 [[1, 1], [1, 1], [1, 1], [2, 3], [3, 2]]) 2
          [[1, 1], [1, 1], [1, 1], [2, 3], [3, 2]] [cx, cx, cx, cy, cz] R (am_rng s))) \<and>
     am_rng (am_step rnd [[1, 1], [1, 1], [1, 1], [2, 3], [3, 2]] R 2 s) = am_rng s"
proof -
  let ?M = "[[1, 1], [1, 1], [1, 1], [2, 3], [3, 2 :: int]]"
  from am_step_assign [OF assms, of ?M rnd 2 s]
  obtain idx where len: "length idx = length ?M"
    and lt: "\<forall>n<length ?M. idx ! n < R"
    and same: "\<forall>n<length ?M. \<forall>m<length ?M. ?M ! n = ?M ! m \<longrightarrow> idx ! n = idx ! m"
    and U: "am_U (am_step rnd ?M R 2 s) = map (\<lambda>k. eye R ! k) idx"
    and Vt: "am_Vt (am_step rnd ?M R 2 s) =
       tensor_encode (fst (major_vote rnd (counts 2 ?M) 2 ?M idx R (am_rng s)))"
    and rng: "am_rng (am_step rnd ?M R 2 s) = snd (major_vote rnd (counts 2 ?M) 2 ?M idx R (am_rng s))"
    by (elim exE conjE)
  have i1: "idx ! 1 = idx ! 0" using same [rule_format, of 1 0] by simp
  have i2: "idx ! 2 = idx ! 0" using same [rule_format, of 2 0] by simp
  have "idx = [idx ! 0, idx ! 1, idx ! 2, idx ! 3, idx ! 4]"
    using len by (intro list5) simp
  then have idx: "idx = [idx ! 0, idx ! 0, idx ! 0, idx ! 3, idx ! 4]"
    unfolding i1 i2 .
  have b: "idx ! 0 < R" "idx ! 3 < R" "idx ! 4 < R"
    using lt by simp_all
  show ?thesis
    apply (rule exI [of _ "idx ! 0"])
    apply (rule exI [of _ "idx ! 3"])
    apply (rule exI [of _ "idx ! 4"])
    using b U Vt rng idx by (simp add: rng_five)
qed


lemma am_loop_five:
  assumes "0 < R"
  shows "\<exists>cx cy cz. cx < R \<and> cy < R \<and> cz < R \<and>
     am_U (am_loop rnd [[1, 1], [1, 1], [1, 1], [2, 3], [3, 2]] R 2 (am_init R 2 Vt0 g)) =
       map (\<lambda>k. eye R ! k) [cx, cx, cx, cy, cz] \<and>
     am_Vt (am_loop rnd [[1, 1], [1, 1], [1, 1], [2, 3], [3, 2]] R 2 (am_init R 2 Vt0 g)) =
       tensor_encode (fst (major_vote rnd (counts 2 [[1, 1], [1, 1], [1, 1], [2, 3], [3, 2]]) 2
          [[1, 1], [1, 1], [1, 1], [2, 3], [3, 2]] [cx, cx, cx, cy, cz] R g)) \<and>
     am_rng (am_loop rnd [[1, 1], [1, 1], [1, 1], [2, 3], [3, 2]] R 2 (am_init R 2 Vt0 g)) = g"
proof -
  let ?M = "[[1, 1], [1, 1], [1, 1], [2, 3], [3, 2 :: int]]"
  have r: "am_rng (am_step rnd ?M R 2 t) = am_rng t" for t
    using am_step_five [OF assms, of rnd t] by blast
  from am_loop_last_step_rng [of rnd ?M R 2 "am_init R 2 Vt0 g", OF r am_continue_init]
  obtain s' where g: "am_rng s' = g"
    and l: "am_loop rnd ?M R 2 (am_init R 2 Vt0 g) = am_step rnd ?M R 2 s'"
    by (auto simp: am_init_def)
  from am_step_five [OF assms, of rnd s'] show ?thesis
    unfolding l g .
qed

lemma domi_five:
  assumes "R = 1 \<or> R = 2 \<or> R = 3" "cx < R" "cy < R" "cz < R"
  shows "domi_flag_of (map (\<lambda>k. eye R ! k) [cx, cx, cx, cy, cz]) R = cx"
proof -
  have a: "list_all (\<lambda>R. list_all (\<lambda>cx. list_all (\<lambda>cy. list_all (\<lambda>cz.
      domi_flag_of (map (\<lambda>k. eye R ! k) [cx, cx, cx, cy, cz]) R = cx)
      [0..<R]) [0..<R]) [0..<R]) [1, 2, 3]"
    by code_simp
  have "R \<in> set [1, 2, 3]" using assms(1) by auto
  with a assms(2-4) show ?thesis
    unfolding list_all_iff by (metis atLeastLessThan_iff set_upt zero_le)
qed

lemma vote_five:
  "fst (vote_row rnd (counts 2 [[1, 1], [1, 1], [1, 1], [2, 3], [3, 2]]) 2
     ([[1, 1], [1, 1], [1, 1]] @ ys @ zs) g) = [1, 1]"
  if "ys = [] \<or> ys = [[2, 3]]" "zs = [] \<or> zs = [[3, 2]]"
proof -
  have "fst (vote_row rnd (counts 2 [[1, 1], [1, 1], [1, 1], [2, 3], [3, 2]]) 2
     [[1, 1], [1, 1], [1, 1]] g) = [1, 1]"
   "fst (vote_row rnd (counts 2 [[1, 1], [1, 1], [1, 1], [2, 3], [3, 2]]) 2
     [[1, 1], [1, 1], [1, 1], [2, 3]] g) = [1, 1]"
   "fst (vote_row rnd (counts 2 [[1, 1], [1, 1], [1, 1], [2, 3], [3, 2]]) 2
     [[1, 1], [1, 1], [1, 1], [3, 2]] g) = [1, 1]"
   "fst (vote_row rnd (counts 2 [[1, 1], [1, 1], [1, 1], [2, 3], [3, 2]]) 2
     [[1, 1], [1, 1], [1, 1], [2, 3], [3, 2]] g) = [1, 1]"
    by code_simp+
  with that show ?thesis by auto
qed

lemma V_flag_five:
  assumes "R = 1 \<or> R = 2 \<or> R = 3" "cx < R" "cy < R" "cz < R"
  shows "tensor_decode R 2
      (tensor_encode (fst (major_vote rnd (counts 2 [[1, 1], [1, 1], [1, 1], [2, 3], [3, 2]]) 2
          [[1, 1], [1, 1], [1, 1], [2, 3], [3, 2]] [cx, cx, cx, cy, cz] R g))) !
      domi_flag_of (map (\<lambda>k. eye R ! k) [cx, cx, cx, cy, cz]) R = [1, 1]"
proof -
  let ?M = "[[1, 1], [1, 1], [1, 1], [2, 3], [3, 2 :: int]]"
  let ?V = "fst (major_vote rnd (counts 2 ?M) 2 ?M [cx, cx, cx, cy, cz] R g)"
  have sel: "select_rows ?M [cx, cx, cx, cy, cz] cx =
      [[1, 1], [1, 1], [1, 1]] @ (if cy = cx then [[2, 3]] else []) @ (if cz = cx then [[3, 2]] else [])"
    by (simp add: select_rows_def)
  have row: "?V ! cx = [1, 1]"
    unfolding major_vote_nth [OF assms(2)] sel by (rule vote_five) simp_all
  have len: "length ?V = R" by (rule length_major_vote)
  have "tensor_decode (length ?V) 2 (tensor_encode ?V) ! cx = ?V ! cx"
    by (rule decode_row [OF wf_major_vote]) (simp_all add: len assms(2) row)
  then show ?thesis
    unfolding len domi_five [OF assms] row .
qed

lemma select_five:
  assumes "\<not> binom_pmf 2 2 seq_err > 1 / 25"
  shows "select_reads binom_pmf seq_err (counts 2 [[1, 1], [1, 1], [1, 1], [2, 3], [3, 2]])
           [[1, 1], [1, 1], [1, 1], [2, 3], [3, 2]] mis_cri [1, 1] = [0, 1, 2]"
proof -
  have h: "HD_table [[1, 1], [1, 1], [1, 1], [2, 3], [3, 2]] [1, 1] =
      [(2, 2, 0), (2, 2, 0), (2, 2, 0), (0, 2, 2), (0, 2, 2)]"
    by code_simp
  have p: "pr_variant_of (counts 2 [[1, 1], [1, 1], [1, 1], [2, 3], [3, 2]]) [2, 3] = 1 / 25"
    "pr_variant_of (counts 2 [[1, 1], [1, 1], [1, 1], [2, 3], [3, 2]]) [3, 2] = 1 / 25"
    by code_simp+
  have u: "[0..<5] = [0, 1, 2, 3, 4]" by (simp add: upt_rec)
  show ?thesis
    unfolding select_reads_def Let_def h using assms by (simp add: u p)
qed

lemma sc_first_five:
  assumes "R = 1 \<or> R = 2 \<or> R = 3"
    and "svds (tensor_encode [[1, 1], [1, 1], [1, 1], [2, 3], [3, 2]]) R = Inr SVt"
    and "\<not> binom_pmf 2 2 seq_err > 1 / 25"
  shows "sc_loop svds binom_pmf seq_err rnd 2 svd_flag
           (sc_init [[1, 1], [1, 1], [1, 1], [2, 3], [3, 2]] ori_mis_cri 2 R g) =
         sc_loop svds binom_pmf seq_err rnd 2 svd_flag
           \<lparr>sc_M_E = [[2, 3], [3, 2]], sc_mis_cri = np_delete ori_mis_cri [0, 1, 2],
            sc_reconV = (replicate R [0, 0])[0 := [1, 1]], sc_num_V = 2, sc_R = R - 1,
            sc_rng = g\<rparr>"
proof -
  let ?S = "[[1, 1], [1, 1], [1, 1], [2, 3], [3, 2 :: int]]"
  let ?s0 = "sc_init ?S ori_mis_cri 2 R g"
  let ?a = "am_loop rnd ?S R 2 (am_init R 2 (Vt_init (fst SVt) (snd SVt) svd_flag) g)"
  have R0: "0 < R" using assms(1) by auto
  from am_loop_five [OF R0, of rnd "Vt_init (fst SVt) (snd SVt) svd_flag" g]
  obtain cx cy cz where c: "cx < R" "cy < R" "cz < R"
    and f: "am_U ?a = map (\<lambda>k. eye R ! k) [cx, cx, cx, cy, cz]"
      "am_Vt ?a = tensor_encode (fst (major_vote rnd (counts 2 ?S) 2 ?S [cx, cx, cx, cy, cz] R g))"
      "am_rng ?a = g"
    by (elim exE conjE)
  have guard: "sc_R ?s0 \<noteq> 0" "length (sc_M_E ?s0) > sc_R ?s0"
    using assms(1) by (auto simp: sc_init_def)
  have am: "sc_am svds rnd 2 svd_flag ?s0 = Inr ?a"
    using assms(2) by (simp add: sc_am_def sc_init_def)
  have vf: "V_flag_of 2 ?s0 ?a = [1, 1]"
    unfolding V_flag_of_def f using V_flag_five [OF assms(1) c]
    by (simp add: sc_init_def)
  have idx: "sc_index binom_pmf seq_err 2 ?s0 ?a = [0, 1, 2]"
    unfolding sc_index_def vf by (simp add: sc_init_def select_five [where binom_pmf = binom_pmf and seq_err = seq_err, OF assms(3)])
  have ac: "counts 2 (map (\<lambda>i. ?S ! i) [0, 1, 2]) = [[3, 0, 0, 0], [3, 0, 0, 0]]"
    by code_simp
  let ?A = "[[3, 0, 0, 0], [3, 0, 0, 0]] :: int list list"
  have vd: "map (\<lambda>j. (int (argmax (?A ! j)) + 1) * (if sum_list (?A ! j) \<noteq> 0 then 1 else 0) +
                    [1, 1] ! j * (if sum_list (?A ! j) = 0 then 1 else 0))
              [0..<2] = [1, 1 :: int]"
    by code_simp
  have am3: "argmax [3, 0, 0, 0 :: int] = 0" by code_simp
  have del: "np_delete ?S [0, 1, 2] = [[2, 3], [3, 2]]" by code_simp
  have peel: "sc_peel 2 ?s0 ?a [0, 1, 2] =
      \<lparr>sc_M_E = [[2, 3], [3, 2]], sc_mis_cri = np_delete ori_mis_cri [0, 1, 2],
       sc_reconV = (replicate R [0, 0])[0 := [1, 1]], sc_num_V = 2, sc_R = R - 1, sc_rng = g\<rparr>"
    unfolding sc_peel_def Let_def vf sc_init_def sc_state.select_convs ac vd del f(3) [unfolded sc_init_def]
    by (simp add: numeral_2_eq_2 am3)
  have ne: "sc_index binom_pmf seq_err 2 ?s0 ?a \<noteq> []" unfolding idx by simp
  from sc_loop_peel [OF guard am ne] show ?thesis unfolding idx peel .
qed

lemma run_branch_five:
  assumes "R = 1 \<or> R = 3"
    and "svds (tensor_encode [[1, 1], [1, 1], [1, 1], [2, 3], [3, 2]]) R = Inr SVt"
    and "\<not> binom_pmf 2 2 seq_err > 1 / 25"
  shows "run_branch svds binom_pmf seq_err rnd [[1, 1], [1, 1], [1, 1], [2, 3], [3, 2]]
           ori_mis_cri 2 R svd_flag g =
         Inr (\<lparr>br_alt_tag = True, br_MEC = Fin 4, br_hap_num = 1, br_reconV2 = Some [[1, 1]]\<rparr>, g)"
proof -
  let ?S = "[[1, 1], [1, 1], [1, 1], [2, 3], [3, 2 :: int]]"
  have R: "R = 1 \<or> R = 2 \<or> R = 3" using assms(1) by auto
  have loop: "sc_loop svds binom_pmf seq_err rnd 2 svd_flag (sc_init ?S ori_mis_cri 2 R g) =
      Inr (True, \<lparr>sc_M_E = [[2, 3], [3, 2]], sc_mis_cri = np_delete ori_mis_cri [0, 1, 2],
            sc_reconV = (replicate R [0, 0])[0 := [1, 1]], sc_num_V = 2, sc_R = R - 1,
            sc_rng = g\<rparr>)"
    unfolding sc_first_five [where binom_pmf = binom_pmf and seq_err = seq_err and svds = svds, OF R assms(2,3)]
    using assms(1) by (intro sc_loop_exit) auto
  have tk: "take (Suc 0) ((replicate R [0, 0::int])[0 := [1, 1]]) = [[1, 1]]"
    using assms(1) by (auto simp: numeral_3_eq_3)
  have it: "argmax_axis1 (iden_table ?S [[1, 1]]) = Inr [0, 0, 0, 0, 0]" by code_simp
  have mec: "mec_score ?S [[1, 1]] = Inr 4" by code_simp
  have "fst (major_vote rnd (counts 2 ?S) 2 ?S [0, 0, 0, 0, 0] (Suc 0) g) = [[1, 1]]"
    by code_simp
  then have mv: "major_vote rnd (counts 2 ?S) 2 ?S [0, 0, 0, 0, 0] (Suc 0) g = ([[1, 1]], g)"
    by (simp add: prod_eq_iff rng_five)
  show ?thesis
    unfolding run_branch_def loop
    by (simp add: tk it mv mec Let_def)
qed

text \<open>
  The two reads \<open>[[2, 3], [3, 2]]\<close> that are left: with rank 1 every iteration votes the
  haplotype \<open>[2, 2]\<close>, at Hamming distance 1 from both reads, and no read is selected.
\<close>

lemma list2:
  assumes "length xs = 2"
  shows "xs = [xs ! 0, xs ! 1]"
proof -
  from assms obtain a b where "xs = [a, b]"
    by (auto simp: length_Suc_conv eval_nat_numeral)
  then show ?thesis by simp
qed

lemma snv_pair: "snv_matrix 2 [[2, 3], [3, 2]]"
  by (simp add: snv_matrix_def wf_matrix_def)

lemma vote_pair:
  "major_vote rnd (counts 2 [[2, 3], [3, 2]]) 2 [[2, 3], [3, 2]] [0, 0] (Suc 0) g = ([[2, 2]], g)"
proof -
  have f: "fst (major_vote rnd (counts 2 [[2, 3], [3, 2]]) 2 [[2, 3], [3, 2]] [0, 0] (Suc 0) g) =
      [[2, 2]]"
    by code_simp
  have n: "sum_list (map (\<lambda>i. length (filter (\<lambda>p. \<not> covered (select_rows [[2, 3], [3, 2]] [0, 0] i) p \<and>
              length (where_max (counts 2 [[2, 3], [3, 2]] ! p)) \<noteq> 1) [0..<2])) [0..<Suc 0]) = 0"
    by code_simp
  have s: "snd (major_vote rnd (counts 2 [[2, 3], [3, 2]]) 2 [[2, 3], [3, 2]] [0, 0] (Suc 0) g) = g"
    by (simp only: major_vote_snd [OF snv_pair] n funpow_0)
  show ?thesis using f s by (simp add: prod_eq_iff)
qed

lemma am_step_pair:
  "am_U (am_step rnd [[2, 3], [3, 2]] (Suc 0) 2 s) = map (\<lambda>k. eye (Suc 0) ! k) [0, 0] \<and>
   am_Vt (am_step rnd [[2, 3], [3, 2]] (Suc 0) 2 s) = tensor_encode [[2, 2]] \<and>
   am_rng (am_step rnd [[2, 3], [3, 2]] (Suc 0) 2 s) = am_rng s"
proof -
  let ?M = "[[2, 3], [3, 2 :: int]]"
  from am_step_assign [of "Suc 0" ?M rnd 2 s]
  obtain idx where len: "length idx = length ?M"
    and lt: "\<forall>n<length ?M. idx ! n < Suc 0"
    and U: "am_U (am_step rnd ?M (Suc 0) 2 s) = map (\<lambda>k. eye (Suc 0) ! k) idx"
    and Vt: "am_Vt (am_step rnd ?M (Suc 0) 2 s) =
       tensor_encode (fst (major_vote rnd (counts 2 ?M) 2 ?M idx (Suc 0) (am_rng s)))"
    and rng: "am_rng (am_step rnd ?M (Suc 0) 2 s) =
       snd (major_vote rnd (counts 2 ?M) 2 ?M idx (Suc 0) (am_rng s))"
    by (auto simp del: One_nat_def)
  have "idx = [idx ! 0, idx ! 1]" using len by (intro list2) simp
  moreover have "idx ! 0 = 0" "idx ! 1 = 0" using lt by simp_all
  ultimately have idx: "idx = [0, 0]" by simp
  show ?thesis unfolding U Vt rng idx vote_pair by simp
qed

lemma am_loop_pair:
  "am_U (am_loop rnd [[2, 3], [3, 2]] (Suc 0) 2 (am_init (Suc 0) 2 Vt0 g)) =
     map (\<lambda>k. eye (Suc 0) ! k) [0, 0] \<and>
   am_Vt (am_loop rnd [[2, 3], [3, 2]] (Suc 0) 2 (am_init (Suc 0) 2 Vt0 g)) =
     tensor_encode [[2, 2]] \<and>
   am_rng (am_loop rnd [[2, 3], [3, 2]] (Suc 0) 2 (am_init (Suc 0) 2 Vt0 g)) = g"
proof -
  let ?M = "[[2, 3], [3, 2 :: int]]"
  have r: "am_rng (am_step rnd ?M (Suc 0) 2 t) = am_rng t" for t
    using am_step_pair [of rnd t] by blast
  from am_loop_last_step_rng [of rnd ?M "Suc 0" 2 "am_init (Suc 0) 2 Vt0 g", OF r am_continue_init]
  obtain s' where g: "am_rng s' = g"
    and l: "am_loop rnd ?M (Suc 0) 2 (am_init (Suc 0) 2 Vt0 g) = am_step rnd ?M (Suc 0) 2 s'"
    by (auto simp: am_init_def)
  from am_step_pair [of rnd s'] show ?thesis
    unfolding l g .
qed

lemma select_pair:
  assumes "\<not> binom_pmf 1 2 seq_err > 1 / 4"
  shows "select_reads binom_pmf seq_err (counts 2 [[2, 3], [3, 2]]) [[2, 3], [3, 2]] mis_cri
           [2, 2] = []"
proof -
  have h: "HD_table [[2, 3], [3, 2]] [2, 2] = [(1, 2, 1), (1, 2, 1)]"
    by code_simp
  have p: "pr_variant_of (counts 2 [[2, 3], [3, 2]]) [2, 3] = 1 / 4"
    "pr_variant_of (counts 2 [[2, 3], [3, 2]]) [3, 2] = 1 / 4"
    by code_simp+
  have u: "[0..<2] = [0, 1]" by (simp add: upt_rec)
  show ?thesis
    unfolding select_reads_def Let_def h using assms by (simp add: u p)
qed

lemma sc_loop_five_fails:
  assumes "svds (tensor_encode [[1, 1], [1, 1], [1, 1], [2, 3], [3, 2]]) 2 = Inr SVt"
    and "svds (tensor_encode [[2, 3], [3, 2]]) 1 = Inr SVt'"
    and "\<not> binom_pmf 2 2 seq_err > 1 / 25" "\<not> binom_pmf 1 2 seq_err > 1 / 4"
  shows "sc_loop svds binom_pmf seq_err rnd 2 svd_flag
           (sc_init [[1, 1], [1, 1], [1, 1], [2, 3], [3, 2]] ori_mis_cri 2 2 g) =
         Inr (False, \<lparr>sc_M_E = [[2, 3], [3, 2]], sc_mis_cri = np_delete ori_mis_cri [0, 1, 2],
                      sc_reconV = [[1, 1], [0, 0]], sc_num_V = 2, sc_R = 1, sc_rng = g\<rparr>)"
proof -
  let ?S = "[[1, 1], [1, 1], [1, 1], [2, 3], [3, 2 :: int]]"
  let ?s1 = "\<lparr>sc_M_E = [[2, 3], [3, 2]], sc_mis_cri = np_delete ori_mis_cri [0, 1, 2],
            sc_reconV = (replicate 2 [0, 0])[0 := [1, 1]], sc_num_V = 2, sc_R = 2 - 1,
            sc_rng = g\<rparr>"
  let ?a = "am_loop rnd [[2, 3], [3, 2]] (Suc 0) 2
              (am_init (Suc 0) 2 (Vt_init (fst SVt') (snd SVt') svd_flag) g)"
  have first: "sc_loop svds binom_pmf seq_err rnd 2 svd_flag (sc_init ?S ori_mis_cri 2 2 g) =
      sc_loop svds binom_pmf seq_err rnd 2 svd_flag ?s1"
    by (rule sc_first_five [where binom_pmf = binom_pmf and seq_err = seq_err and svds = svds,
          OF _ assms(1) assms(3)]) simp
  note f = am_loop_pair [of rnd "Vt_init (fst SVt') (snd SVt') svd_flag" g]
  have guard: "sc_R ?s1 \<noteq> 0" "length (sc_M_E ?s1) > sc_R ?s1" by simp_all
  have am: "sc_am svds rnd 2 svd_flag ?s1 = Inr ?a"
    using assms(2) by (simp add: sc_am_def)
  have d: "tensor_decode (Suc 0) 2 (tensor_encode [[2, 2]]) !
      domi_flag_of (map (\<lambda>k. eye (Suc 0) ! k) [0, 0]) (Suc 0) = [2, 2]"
    by code_simp
  have vf: "V_flag_of 2 ?s1 ?a = [2, 2]"
    unfolding V_flag_of_def using f d by simp
  have idx: "sc_index binom_pmf seq_err 2 ?s1 ?a = []"
    unfolding sc_index_def vf
    by (simp add: select_pair [where binom_pmf = binom_pmf and seq_err = seq_err, OF assms(4)])
  have "sc_loop svds binom_pmf seq_err rnd 2 svd_flag ?s1 = Inr (False, ?s1\<lparr>sc_rng := am_rng ?a\<rparr>)"
    by (rule sc_loop_abort [OF guard am idx])
  then show ?thesis
    unfolding first using f by (simp add: numeral_2_eq_2)
qed

lemma run_branch_five_fails:
  assumes "svds (tensor_encode [[1, 1], [1, 1], [1, 1], [2, 3], [3, 2]]) 2 = Inr SVt"
    and "svds (tensor_encode [[2, 3], [3, 2]]) 1 = Inr SVt'"
    and "\<not> binom_pmf 2 2 seq_err > 1 / 25" "\<not> binom_pmf 1 2 seq_err > 1 / 4"
  shows "run_branch svds binom_pmf seq_err rnd [[1, 1], [1, 1], [1, 1], [2, 3], [3, 2]]
           ori_mis_cri 2 2 svd_flag g =
         Inr (\<lparr>br_alt_tag = False, br_MEC = Inf, br_hap_num = 0, br_reconV2 = None\<rparr>, g)"
  unfolding run_branch_def
    sc_loop_five_fails [where binom_pmf = binom_pmf and seq_err = seq_err and svds = svds,
      OF assms]
  by simp

lemma eval_K_five:
  assumes "K_ite = 1 \<or> K_ite = 3"
    and "svds (tensor_encode [[1, 1], [1, 1], [1, 1], [2, 3], [3, 2]]) K_ite = Inr SVt"
    and "\<not> binom_pmf 2 2 seq_err > 1 / 25"
  shows "eval_K svds binom_pmf seq_err rnd [[1, 1], [1, 1], [1, 1], [2, 3], [3, 2]]
           ori_mis_cri 2 K_ite g =
         Inr (\<lparr>k_alt_tag1 = True, k_alt_tag2 = True, k_MEC = [Fin 4, Fin 4],
               k_hap_num = [1, 1], k_reconV3 = Some [[1, 1]], k_reconV4 = Some [[1, 1]]\<rparr>, g)"
proof -
  have "run_branch svds binom_pmf seq_err rnd [[1, 1], [1, 1], [1, 1], [2, 3], [3, 2]]
          ori_mis_cri 2 K_ite svd_flag g' =
        Inr (\<lparr>br_alt_tag = True, br_MEC = Fin 4, br_hap_num = 1, br_reconV2 = Some [[1, 1]]\<rparr>, g')"
    for svd_flag g'
    by (rule run_branch_five [where binom_pmf = binom_pmf and seq_err = seq_err and svds = svds,
          OF assms])
  then show ?thesis unfolding eval_K_def by simp
qed

lemma eval_K_five_fails:
  assumes "svds (tensor_encode [[1, 1], [1, 1], [1, 1], [2, 3], [3, 2]]) 2 = Inr SVt"
    and "svds (tensor_encode [[2, 3], [3, 2]]) 1 = Inr SVt'"
    and "\<not> binom_pmf 2 2 seq_err > 1 / 25" "\<not> binom_pmf 1 2 seq_err > 1 / 4"
  shows "eval_K svds binom_pmf seq_err rnd [[1, 1], [1, 1], [1, 1], [2, 3], [3, 2]]
           ori_mis_cri 2 2 g =
         Inr (\<lparr>k_alt_tag1 = False, k_alt_tag2 = False, k_MEC = [Inf, Inf],
               k_hap_num = [0, 0], k_reconV3 = None, k_reconV4 = None\<rparr>, g)"
proof -
  have "run_branch svds binom_pmf seq_err rnd [[1, 1], [1, 1], [1, 1], [2, 3], [3, 2]]
          ori_mis_cri 2 2 svd_flag g' =
        Inr (\<lparr>br_alt_tag = False, br_MEC = Inf, br_hap_num = 0, br_reconV2 = None\<rparr>, g')"
    for svd_flag g'
    by (rule run_branch_five_fails [where binom_pmf = binom_pmf and seq_err = seq_err
          and svds = svds, OF assms])
  then show ?thesis unfolding eval_K_def by simp
qed

lemma rank_stalls:
  "(case rank_estimation
      (\<lambda>K g. if K = 1 \<or> K = 3
             then Inr (\<lparr>k_alt_tag1 = True, k_alt_tag2 = True, k_MEC = [Fin 4, Fin 4],
                        k_hap_num = [1, 1], k_reconV3 = Some [[1, 1]],
                        k_reconV4 = Some [[1, 1]]\<rparr>, g)
             else if K = 2
             then Inr (\<lparr>k_alt_tag1 = False, k_alt_tag2 = False, k_MEC = [Inf, Inf],
                        k_hap_num = [0, 0], k_reconV3 = None, k_reconV4 = None\<rparr>, g)
             else ev K g) MEC_thre 1 g of
      Inl e \<Rightarrow> e = IndexError ''index is out of bounds for axis 1''
    | Inr x \<Rightarrow> False)"
  by code_simp


section \<open>The MEC of a branch\<close>

lemma mec_score_nonempty:
  assumes "mec_score S V = Inr mec" "S \<noteq> []"
  shows "V \<noteq> []"
proof
  assume "V = []"
  then have "list_ex (\<lambda>r. r = []) (iden_table S V)"
    using assms(2) by (cases S) (simp_all add: iden_table_def)
  then show False using assms(1) by (simp add: mec_score_def argmax_axis1_def)
qed

lemma mis_cri_of_positive: "1 \<le> mis_cri_of Ls Th nongap"
  by (simp add: mis_cri_of_def split: option.splits)

text \<open>
  C3. When a \<open>(K, sign)\<close> branch does not fail, the MEC recorded for it is the number of
  cells \<open>(i, j)\<close> of the read matrix with \<open>S[i, j] \<noteq> 0\<close> and \<open>S[i, j] \<noteq> reconV2[a_i, j]\<close>,
  where \<open>reconV2\<close> are the haplotypes of the branch and the assignment \<open>a_i\<close> (the final
  reassignment) is a haplotype of \<open>reconV2\<close> with the greatest number of positions equal
  to read \<open>i\<close>.
\<close>

theorem branch_MEC_counts_mismatches:
  assumes "wf_matrix hap_len S" "S \<noteq> []"
    and "run_branch svds binom_pmf seq_err rnd S ori_mis_cri hap_len K_ite svd_flag g = Inr (b, g')"
    and "br_alt_tag b"
  shows "\<exists>reconV2 a. br_reconV2 b = Some reconV2 \<and>
     argmax_axis1 (iden_table S reconV2) = Inr a \<and> length a = length S \<and>
     (\<forall>i<length S. a ! i < length reconV2 \<and>
        (\<forall>h<length reconV2. card {j. j < hap_len \<and> S ! i ! j = reconV2 ! h ! j}
                           \<le> card {j. j < hap_len \<and> S ! i ! j = reconV2 ! (a ! i) ! j})) \<and>
     br_MEC b =
       Fin (real (card {(i, j). i < length S \<and> j < hap_len \<and> S ! i ! j \<noteq> 0 \<and>
                                S ! i ! j \<noteq> reconV2 ! (a ! i) ! j}))"
proof -
  have "\<exists>V mec. wf_matrix hap_len V \<and> mec_score S V = Inr mec \<and>
           br_reconV2 b = Some V \<and> br_MEC b = Fin (real mec)"
    using assms(3,4) wf_major_vote [of hap_len rnd "counts hap_len S" S]
    unfolding run_branch_def Let_def
    by (auto split: sum.splits prod.splits if_splits)
  then obtain V mec where wf: "wf_matrix hap_len V" and mec: "mec_score S V = Inr mec"
    and b: "br_reconV2 b = Some V" "br_MEC b = Fin (real mec)"
    by blast
  have ne: "V \<noteq> []" by (rule mec_score_nonempty [OF mec assms(2)])
  from mec_score_spec [OF assms(1) wf ne] mec obtain a where
    a: "argmax_axis1 (iden_table S V) = Inr a" "length a = length S"
       "\<forall>i<length S. a ! i < length V \<and>
          (\<forall>h<length V. card {j. j < hap_len \<and> S ! i ! j = V ! h ! j}
                         \<le> card {j. j < hap_len \<and> S ! i ! j = V ! (a ! i) ! j})"
       "mec = card {(i, j). i < length S \<and> j < hap_len \<and> S ! i ! j \<noteq> 0 \<and>
                            S ! i ! j \<noteq> V ! (a ! i) ! j}"
    by auto
  show ?thesis
    apply (rule exI [of _ V])
    apply (rule exI [of _ a])
    using a b by simp
qed

text \<open>
  The five reads \<open>[[1, 1], [1, 1], [1, 1], [2, 3], [3, 2]]\<close> with rank 1: the branch
  returns the haplotype \<open>[1, 1]\<close> and the MEC 4, the four cells of the last two reads.
\<close>

theorem branch_MEC_counts_mismatches_witness:
  "wf_matrix 2 [[1, 1], [1, 1], [1, 1], [2, 3], [3, 2 :: int]] \<and>
   [[1, 1], [1, 1], [1, 1], [2, 3], [3, 2 :: int]] \<noteq> [] \<and>
   run_branch (\<lambda>T k. Inr ([sqrt 6], [[1 / sqrt 2, 1 / sqrt 2, 0, 0, 0, 0, 0, 0]]))
     (\<lambda>k n p. real (nat n choose nat k) * p ^ nat k * (1 - p) ^ nat (n - k)) (1 / 500)
     (\<lambda>g::nat. (0, Suc g)) [[1, 1], [1, 1], [1, 1], [2, 3], [3, 2]] [2, 2, 2, 2, 2] 2 1 1 0 =
     Inr (\<lparr>br_alt_tag = True, br_MEC = Fin 4, br_hap_num = 1, br_reconV2 = Some [[1, 1]]\<rparr>, 0) \<and>
   (\<exists>a. argmax_axis1 (iden_table [[1, 1], [1, 1], [1, 1], [2, 3], [3, 2]] [[1, 1]]) = Inr a \<and>
      (4 :: real) =
        real (card {(i, j). i < length [[1, 1], [1, 1], [1, 1], [2, 3], [3, 2 :: int]] \<and>
                            j < (2::nat) \<and>
                            [[1, 1], [1, 1], [1, 1], [2, 3], [3, 2]] ! i ! j \<noteq> (0::int) \<and>
                            [[1, 1], [1, 1], [1, 1], [2, 3], [3, 2 :: int]] ! i ! j \<noteq>
                              [[1, 1]] ! (a ! i) ! j}))"
proof -
  let ?S = "[[1, 1], [1, 1], [1, 1], [2, 3], [3, 2 :: int]]"
  let ?svds = "\<lambda>(T::rmatrix) (k::nat).
      Inr ([sqrt 6], [[1 / sqrt 2, 1 / sqrt 2, 0, 0, 0, 0, 0, 0]]) :: error + real list \<times> rmatrix"
  let ?pmf = "\<lambda>(k::int) (n::int) (p::real).
      real (nat n choose nat k) * p ^ nat k * (1 - p) ^ nat (n - k)"
  let ?b = "\<lparr>br_alt_tag = True, br_MEC = Fin 4, br_hap_num = 1, br_reconV2 = Some [[1, 1]]\<rparr>"
  have h1: "wf_matrix 2 ?S" and h2: "?S \<noteq> []"
    by (simp_all add: wf_matrix_def)
  have p: "\<not> ?pmf 2 2 (1 / 500) > 1 / 25" by (simp add: power2_eq_square)
  have h3: "run_branch ?svds ?pmf (1 / 500) (\<lambda>g::nat. (0, Suc g)) ?S [2, 2, 2, 2, 2] 2 1 1 0 =
      Inr (?b, 0)"
    by (rule run_branch_five [where binom_pmf = ?pmf and seq_err = "1 / 500", OF _ _ p]) simp_all
  have h4: "br_alt_tag ?b" by simp
  from branch_MEC_counts_mismatches [OF h1 h2 h3 h4] h1 h2 h3
  show ?thesis by (auto simp: ext.inject)
qed


end
